theory Spec2Isabelle
  imports Complex_Main "HOL-Library.Char_ord" "HOL-Library.List_Lexorder" "HOL-Library.Multiset"
begin

section \<open>The TFRecord converter (functions/tfrecord-converter/main.py)\<close>

text \<open>
  The converter walks an extracted image archive, finds the folder with one subfolder per
  class, numbers the classes, splits the samples and packs them into shard files with a
  checksum each. The embedding below follows \<^verbatim>\<open>main.py\<close> function by function.
  What the source gets from libraries is a parameter of the model: the draws of the seeded
  random generator, the serialisation of one example, the digest and the image decoder.
\<close>

subsection \<open>Exceptions\<close>

datatype error = NotADirectoryError | FileNotFoundError | TypeError | KeyError

subsection \<open>Strings\<close>

text \<open>\<^verbatim>\<open>str.lower\<close> on the ASCII letters.\<close>

definition lower_char :: "char \<Rightarrow> char" where
  "lower_char c =
     (case map_of (zip ''ABCDEFGHIJKLMNOPQRSTUVWXYZ'' ''abcdefghijklmnopqrstuvwxyz'') c of
        None \<Rightarrow> c
      | Some l \<Rightarrow> l)"

definition lower :: "string \<Rightarrow> string" where
  "lower s = map lower_char s"

definition endswith :: "string \<Rightarrow> string \<Rightarrow> bool" where
  "endswith s e = (length e \<le> length s \<and> drop (length s - length e) s = e)"

definition extensions :: "string list" where
  "extensions = [''.png'', ''.jpg'', ''.jpeg'', ''.webp'', ''.gif'', ''.bmp'']"

text \<open>\<^verbatim>\<open>f.lower().endswith(extensions)\<close>, the test of both \<^verbatim>\<open>has_images\<close> and
  \<^verbatim>\<open>collect_images\<close>.\<close>

definition is_image_name :: "string \<Rightarrow> bool" where
  "is_image_name f = list_ex (endswith (lower f)) extensions"

text \<open>\<^verbatim>\<open>os.path.basename\<close> of a path written as one string: what follows the last slash.\<close>

definition basename :: "string \<Rightarrow> string" where
  "basename p = rev (takeWhile (\<lambda>c. c \<noteq> CHR ''/'') (rev p))"

text \<open>The decimal digits of a number, and the format \<^verbatim>\<open>{shard_idx:05d}\<close>: at least five
  digits, padded with zeros on the left.\<close>

definition digit_char :: "nat \<Rightarrow> char" where
  "digit_char d = ''0123456789'' ! d"

fun digits :: "nat \<Rightarrow> string" where
  "digits n = (if n < 10 then [digit_char n] else digits (n div 10) @ [digit_char (n mod 10)])"

declare digits.simps [simp del]

definition fmt05d :: "nat \<Rightarrow> string" where
  "fmt05d n = replicate (5 - length (digits n)) (CHR ''0'') @ digits n"

text \<open>A dict built by a comprehension or by successive stores: a later pair with the
  same key replaces an earlier one.\<close>

definition dict_of :: "('k \<times> 'v) list \<Rightarrow> ('k \<rightharpoonup> 'v)" where
  "dict_of kvs = foldl (\<lambda>m kv. m(fst kv \<mapsto> snd kv)) Map.empty kvs"

subsection \<open>The extracted archive\<close>

text \<open>
  The directory tree the ZIP was extracted to. A directory lists its entries in the
  order \<^verbatim>\<open>os.listdir\<close> returns them; a file holds its bytes, or \<open>None\<close> when reading it
  fails. A path is the list of names from the extraction directory down, so
  \<^verbatim>\<open>os.path.join(p, d)\<close> is \<open>p @ [d]\<close>.
\<close>

datatype node = File "string option" | Dir "(string \<times> node) list"

type_synonym path = "string list"

fun lookup :: "node \<Rightarrow> path \<Rightarrow> node option" where
  "lookup n [] = Some n"
| "lookup n (c # cs) =
     (case n of
        File _ \<Rightarrow> None
      | Dir es \<Rightarrow> (case map_of es c of None \<Rightarrow> None | Some m \<Rightarrow> lookup m cs))"

definition exists :: "node \<Rightarrow> path \<Rightarrow> bool" where
  "exists fs p = (case lookup fs p of None \<Rightarrow> False | Some _ \<Rightarrow> True)"

definition isdir :: "node \<Rightarrow> path \<Rightarrow> bool" where
  "isdir fs p = (case lookup fs p of Some (Dir _) \<Rightarrow> True | _ \<Rightarrow> False)"

text \<open>\<^verbatim>\<open>os.listdir\<close> raises on what is not a directory.\<close>

definition listdir :: "node \<Rightarrow> path \<Rightarrow> error + string list" where
  "listdir fs p =
     (case lookup fs p of
        None \<Rightarrow> Inl FileNotFoundError
      | Some (File _) \<Rightarrow> Inl NotADirectoryError
      | Some (Dir es) \<Rightarrow> Inr (map fst es))"

text \<open>\<^verbatim>\<open>open(p, 'rb').read()\<close>: the bytes of a readable file, \<open>None\<close> when it raises.\<close>

definition read_file :: "node \<Rightarrow> path \<Rightarrow> string option" where
  "read_file fs p = (case lookup fs p of Some (File (Some b)) \<Rightarrow> Some b | _ \<Rightarrow> None)"

subsection \<open>The Shard Writer: \<^verbatim>\<open>create_example\<close> and \<^verbatim>\<open>write_shards\<close>\<close>

text \<open>
  \<^verbatim>\<open>create_example\<close> reads the image and serialises its bytes, the label and the base
  name of the path; \<open>ser\<close> is the serialisation of the example. A failed read raises.
\<close>

definition create_example ::
  "(string \<Rightarrow> nat \<Rightarrow> string \<Rightarrow> string) \<Rightarrow> node \<Rightarrow> path \<Rightarrow> nat \<Rightarrow> string option" where
  "create_example ser fs img_path label =
     (case read_file fs img_path of
        None \<Rightarrow> None
      | Some img_bytes \<Rightarrow>
          Some (ser img_bytes label (if img_path = [] then [] else last img_path)))"

text \<open>
  The local variables of \<^verbatim>\<open>write_shards\<close>, and the output directory. The writer is
  \<open>None\<close> before the first shard, and afterwards the path of the open shard with the
  records written to it so far. A shard file is the sequence of records in it (its bytes
  are the framing of that sequence); closing the writer puts the records in the file.
\<close>

record 'h wstate =
  shard_paths :: "string list"
  checksums :: "string \<rightharpoonup> 'h"
  shard_idx :: nat
  current_size :: nat
  writer :: "(string \<times> string list) option"
  files :: "string \<rightharpoonup> string list"

definition shard_path :: "string \<Rightarrow> nat \<Rightarrow> string" where
  "shard_path output_prefix idx = output_prefix @ ''-'' @ fmt05d idx @ ''.tfrecord''"

text \<open>\<^verbatim>\<open>writer.close()\<close>, then the digest of the file read back (lines 160-163 and
  179-182).\<close>

definition close_shard :: "(string list \<Rightarrow> 'h) \<Rightarrow> 'h wstate \<Rightarrow> error + 'h wstate" where
  "close_shard md5 s =
     (case writer s of
        None \<Rightarrow> Inr s
      | Some (current_shard_path, records) \<Rightarrow>
          (let fl = (files s)(current_shard_path \<mapsto> records) in
           case fl current_shard_path of
             None \<Rightarrow> Inl FileNotFoundError
           | Some content \<Rightarrow>
               Inr (s\<lparr>checksums := (checksums s)(basename current_shard_path \<mapsto> md5 content),
                      files := fl\<rparr>)))"

text \<open>Lines 159-170: a new shard is opened when none is open or the open one has
  reached the threshold.\<close>

definition roll_over ::
  "(string list \<Rightarrow> 'h) \<Rightarrow> string \<Rightarrow> rat \<Rightarrow> 'h wstate \<Rightarrow> error + 'h wstate" where
  "roll_over md5 output_prefix shard_size_bytes s =
     (if writer s = None \<or> of_nat (current_size s) \<ge> shard_size_bytes then
        (case close_shard md5 s of
           Inl e \<Rightarrow> Inl e
         | Inr s1 \<Rightarrow>
             (let current_shard_path = shard_path output_prefix (shard_idx s1) in
              Inr (s1\<lparr>shard_paths := shard_paths s1 @ [basename current_shard_path],
                       writer := Some (current_shard_path, []),
                       files := (files s1)(current_shard_path \<mapsto> []),
                       shard_idx := shard_idx s1 + 1,
                       current_size := 0\<rparr>)))
      else Inr s)"

text \<open>Lines 172-177: the example is written and counted; any exception is caught and
  the sample skipped.\<close>

definition write_example ::
  "(string \<Rightarrow> nat \<Rightarrow> string \<Rightarrow> string) \<Rightarrow> node \<Rightarrow> path \<times> nat \<Rightarrow> 'h wstate \<Rightarrow> 'h wstate" where
  "write_example ser fs img s =
     (case create_example ser fs (fst img) (snd img) of
        None \<Rightarrow> s
      | Some serialized \<Rightarrow>
          (case writer s of
             None \<Rightarrow> s
           | Some (current_shard_path, records) \<Rightarrow>
               s\<lparr>writer := Some (current_shard_path, records @ [serialized]),
                 current_size := current_size s + length serialized\<rparr>))"

fun write_loop ::
  "(string \<Rightarrow> nat \<Rightarrow> string \<Rightarrow> string) \<Rightarrow> (string list \<Rightarrow> 'h) \<Rightarrow> node \<Rightarrow> string \<Rightarrow> rat \<Rightarrow>
   (path \<times> nat) list \<Rightarrow> 'h wstate \<Rightarrow> error + 'h wstate" where
  "write_loop ser md5 fs output_prefix shard_size_bytes [] s = Inr s"
| "write_loop ser md5 fs output_prefix shard_size_bytes (img # images) s =
     (case roll_over md5 output_prefix shard_size_bytes s of
        Inl e \<Rightarrow> Inl e
      | Inr s1 \<Rightarrow>
          write_loop ser md5 fs output_prefix shard_size_bytes images (write_example ser fs img s1))"

definition init_wstate :: "(string \<rightharpoonup> string list) \<Rightarrow> 'h wstate" where
  "init_wstate fl =
     \<lparr>shard_paths = [], checksums = Map.empty, shard_idx = 0, current_size = 0,
      writer = None, files = fl\<rparr>"

text \<open>\<^verbatim>\<open>write_shards\<close> returns the shard names and the checksums; the model also returns
  the output directory as the call leaves it.\<close>

definition write_shards ::
  "(string \<Rightarrow> nat \<Rightarrow> string \<Rightarrow> string) \<Rightarrow> (string list \<Rightarrow> 'h) \<Rightarrow> node \<Rightarrow>
   (string \<rightharpoonup> string list) \<Rightarrow> (path \<times> nat) list \<Rightarrow> string \<Rightarrow> rat \<Rightarrow>
   error + (string list \<times> (string \<rightharpoonup> 'h) \<times> (string \<rightharpoonup> string list))" where
  "write_shards ser md5 fs fl images output_prefix shard_size_bytes =
     (case write_loop ser md5 fs output_prefix shard_size_bytes images (init_wstate fl) of
        Inl e \<Rightarrow> Inl e
      | Inr s \<Rightarrow>
          (case close_shard md5 s of
             Inl e \<Rightarrow> Inl e
           | Inr s1 \<Rightarrow> Inr (shard_paths s1, checksums s1, files s1)))"

subsection \<open>The Layout Resolver: \<^verbatim>\<open>find_image_folder\<close>\<close>

definition get_subdirs :: "node \<Rightarrow> path \<Rightarrow> error + string list" where
  "get_subdirs fs p =
     (if \<not> exists fs p then Inr []
      else (case listdir fs p of
              Inl e \<Rightarrow> Inl e
            | Inr names \<Rightarrow>
                Inr (filter (\<lambda>d. isdir fs (p @ [d]) \<and>
                       d \<notin> set [''__pycache__'', ''.git'', ''__MACOSX'', ''.DS_Store'']) names)))"

text \<open>The first 20 entries listed; any exception gives \<open>False\<close>.\<close>

definition has_images :: "node \<Rightarrow> path \<Rightarrow> bool" where
  "has_images fs folder =
     (case listdir fs folder of
        Inl _ \<Rightarrow> False
      | Inr names \<Rightarrow> list_ex is_image_name (take 20 names))"

text \<open>The dict \<^verbatim>\<open>search\<close> returns.\<close>

record layout =
  train :: path
  test :: "path option"
  base :: path

text \<open>Lines 88-92: the first of the given names that is a key of \<^verbatim>\<open>subdir_lower\<close>.\<close>

fun find_test :: "(string \<rightharpoonup> string) \<Rightarrow> path \<Rightarrow> string list \<Rightarrow> path option" where
  "find_test subdir_lower p [] = None"
| "find_test subdir_lower p (t # ts) =
     (case subdir_lower t of
        Some d \<Rightarrow> Some (p @ [d])
      | None \<Rightarrow> find_test subdir_lower p ts)"

text \<open>Lines 83-93: the loop over \<^verbatim>\<open>['train', 'training']\<close>.\<close>

fun check_train ::
  "node \<Rightarrow> path \<Rightarrow> (string \<rightharpoonup> string) \<Rightarrow> string list \<Rightarrow> error + layout option" where
  "check_train fs p subdir_lower [] = Inr None"
| "check_train fs p subdir_lower (name # names) =
     (case subdir_lower name of
        None \<Rightarrow> check_train fs p subdir_lower names
      | Some d \<Rightarrow>
          (let train_dir = p @ [d] in
           case get_subdirs fs train_dir of
             Inl e \<Rightarrow> Inl e
           | Inr train_subdirs \<Rightarrow>
               (case train_subdirs of
                  first # _ \<Rightarrow>
                    if has_images fs (train_dir @ [first]) then
                      Inr (Some \<lparr>train = train_dir,
                                 test = find_test subdir_lower p [''test'', ''val'', ''validation''],
                                 base = p\<rparr>)
                    else check_train fs p subdir_lower names
                | [] \<Rightarrow> check_train fs p subdir_lower names)))"

text \<open>
  \<^verbatim>\<open>search\<close>, with the loop of lines 102-105 as \<open>search_each\<close>, which is called with the
  depth of the subdirectories.
\<close>

function search :: "nat \<Rightarrow> node \<Rightarrow> path \<Rightarrow> nat \<Rightarrow> error + layout option"
  and search_each :: "nat \<Rightarrow> node \<Rightarrow> path \<Rightarrow> nat \<Rightarrow> string list \<Rightarrow> error + layout option" where
  "search max_depth fs p depth =
     (if depth > max_depth then Inr None
      else (case get_subdirs fs p of
              Inl e \<Rightarrow> Inl e
            | Inr subdirs \<Rightarrow>
                (let subdir_lower = dict_of (map (\<lambda>d. (lower d, d)) subdirs) in
                 case check_train fs p subdir_lower [''train'', ''training''] of
                   Inl e \<Rightarrow> Inl e
                 | Inr (Some found) \<Rightarrow> Inr (Some found)
                 | Inr None \<Rightarrow>
                     if length subdirs > 1 \<and> has_images fs (p @ [hd subdirs]) then
                       Inr (Some \<lparr>train = p, test = None, base = p\<rparr>)
                     else search_each max_depth fs p (depth + 1) subdirs)))"
| "search_each max_depth fs p depth1 [] = Inr None"
| "search_each max_depth fs p depth1 (subdir # subdirs) =
     (case search max_depth fs (p @ [subdir]) depth1 of
        Inl e \<Rightarrow> Inl e
      | Inr (Some found) \<Rightarrow> Inr (Some found)
      | Inr None \<Rightarrow> search_each max_depth fs p depth1 subdirs)"
  by pat_completeness auto
termination
  by (relation "measures
        [\<lambda>x. case x of
                Inl (max_depth, fs, p, depth) \<Rightarrow> 2 * (max_depth + 1 - depth) + 1
              | Inr (max_depth, fs, p, depth1, subdirs) \<Rightarrow> 2 * (max_depth + 1 - depth1) + 2,
         \<lambda>x. case x of
                Inl _ \<Rightarrow> 0
              | Inr (max_depth, fs, p, depth1, subdirs) \<Rightarrow> length subdirs]")
    auto

declare search.simps [simp del]

definition find_image_folder :: "node \<Rightarrow> nat \<Rightarrow> error + layout option" where
  "find_image_folder fs max_depth = search max_depth fs [] 0"

subsection \<open>The Class Indexer: lines 242-256 and \<^verbatim>\<open>collect_images\<close>\<close>

type_synonym sample = "path \<times> nat"

definition class_names_of :: "node \<Rightarrow> path \<Rightarrow> error + string list" where
  "class_names_of fs train_dir =
     (case listdir fs train_dir of
        Inl e \<Rightarrow> Inl e
      | Inr names \<Rightarrow>
          Inr (sort (filter (\<lambda>d. isdir fs (train_dir @ [d]) \<and>
                       d \<notin> set [''__pycache__'', ''__MACOSX'']) names)))"

definition class_to_idx_of :: "string list \<Rightarrow> (string \<rightharpoonup> nat)" where
  "class_to_idx_of class_names =
     dict_of (map (\<lambda>(idx, name). (name, idx)) (enumerate 0 class_names))"

definition collect_images :: "node \<Rightarrow> path \<Rightarrow> nat \<Rightarrow> error + sample list" where
  "collect_images fs class_dir class_idx =
     (case listdir fs class_dir of
        Inl e \<Rightarrow> Inl e
      | Inr names \<Rightarrow> Inr (map (\<lambda>img_file. (class_dir @ [img_file], class_idx))
                           (filter is_image_name names)))"

text \<open>Lines 247-254: the samples of every class in turn, and the first image found.\<close>

fun collect_train ::
  "node \<Rightarrow> path \<Rightarrow> (string \<rightharpoonup> nat) \<Rightarrow> string list \<Rightarrow> sample list \<Rightarrow> path option \<Rightarrow>
   error + (sample list \<times> path option)" where
  "collect_train fs train_dir class_to_idx [] train_images sample_img =
     Inr (train_images, sample_img)"
| "collect_train fs train_dir class_to_idx (class_name # class_names) train_images sample_img =
     (case class_to_idx class_name of
        None \<Rightarrow> Inl KeyError
      | Some idx \<Rightarrow>
          (case collect_images fs (train_dir @ [class_name]) idx of
             Inl e \<Rightarrow> Inl e
           | Inr imgs \<Rightarrow>
               collect_train fs train_dir class_to_idx class_names (train_images @ imgs)
                 (case sample_img of
                    Some p \<Rightarrow> Some p
                  | None \<Rightarrow> (case imgs of [] \<Rightarrow> None | img # _ \<Rightarrow> Some (fst img)))))"

text \<open>Lines 269-272: the test samples, class by class in the order of the train classes.\<close>

fun collect_test ::
  "node \<Rightarrow> path \<Rightarrow> (string \<rightharpoonup> nat) \<Rightarrow> string list \<Rightarrow> sample list \<Rightarrow> error + sample list" where
  "collect_test fs test_dir class_to_idx [] test_images = Inr test_images"
| "collect_test fs test_dir class_to_idx (class_name # class_names) test_images =
     (let class_dir = test_dir @ [class_name] in
      if exists fs class_dir then
        (case class_to_idx class_name of
           None \<Rightarrow> Inl KeyError
         | Some idx \<Rightarrow>
             (case collect_images fs class_dir idx of
                Inl e \<Rightarrow> Inl e
              | Inr imgs \<Rightarrow>
                  collect_test fs test_dir class_to_idx class_names (test_images @ imgs)))
      else collect_test fs test_dir class_to_idx class_names test_images)"

text \<open>\<^verbatim>\<open>get_image_dimensions\<close>: \<open>decode\<close> is the image library reading the size.\<close>

definition get_image_dimensions ::
  "(string \<Rightarrow> (nat \<times> nat) option) \<Rightarrow> node \<Rightarrow> path \<Rightarrow> nat \<times> nat" where
  "get_image_dimensions decode fs img_path =
     (case read_file fs img_path of
        None \<Rightarrow> (0, 0)
      | Some b \<Rightarrow> (case decode b of None \<Rightarrow> (0, 0) | Some wh \<Rightarrow> wh))"

subsection \<open>The Split Planner: lines 258-265\<close>

text \<open>
  \<^verbatim>\<open>random.shuffle\<close> runs \<open>i\<close> from the last index down to 1 and exchanges the elements
  at \<open>i\<close> and at \<^verbatim>\<open>randbelow(i + 1)\<close>. The generator is seeded with a constant just before,
  so its draws are a fixed sequence: \<open>g i\<close> is the draw made at index \<open>i\<close>, brought into
  the range of \<^verbatim>\<open>randbelow\<close>.
\<close>

fun shuffle_from :: "(nat \<Rightarrow> nat) \<Rightarrow> nat \<Rightarrow> 'a list \<Rightarrow> 'a list" where
  "shuffle_from g 0 x = x"
| "shuffle_from g (Suc k) x =
     (let i = Suc k; j = g i mod (i + 1) in shuffle_from g k (x[i := x ! j, j := x ! i]))"

definition shuffle :: "(nat \<Rightarrow> nat) \<Rightarrow> 'a list \<Rightarrow> 'a list" where
  "shuffle g x = shuffle_from g (length x - 1) x"

text \<open>\<^verbatim>\<open>int(x)\<close> rounds towards zero.\<close>

definition py_int :: "rat \<Rightarrow> int" where
  "py_int x = (if x \<ge> 0 then \<lfloor>x\<rfloor> else \<lceil>x\<rceil>)"

text \<open>The bound of a slice: a negative bound counts from the end, and a bound outside
  the list is brought to its nearer end.\<close>

definition slice_bound :: "nat \<Rightarrow> int \<Rightarrow> nat" where
  "slice_bound n k = (if k < 0 then nat (max 0 (int n + k)) else min n (nat k))"

definition slice_from :: "'a list \<Rightarrow> int \<Rightarrow> 'a list" where
  "slice_from xs k = drop (slice_bound (length xs) k) xs"

definition slice_to :: "'a list \<Rightarrow> int \<Rightarrow> 'a list" where
  "slice_to xs k = take (slice_bound (length xs) k) xs"

text \<open>The result is the train list and the validation list.\<close>

definition split_train_val ::
  "(nat \<Rightarrow> nat) \<Rightarrow> path option \<Rightarrow> rat \<Rightarrow> sample list \<Rightarrow> sample list \<times> sample list" where
  "split_train_val g test_dir val_split collected =
     (let train_images = shuffle g collected in
      if test_dir = None \<and> val_split > 0 then
        (let split_idx = py_int (of_nat (length train_images) * (1 - val_split)) in
         (slice_to train_images split_idx, slice_from train_images split_idx))
      else (train_images, []))"

subsection \<open>The conversion: \<^verbatim>\<open>convert_to_tfrecord\<close>\<close>

text \<open>Lines 238-272: the classes and the three sample lists.\<close>

record plan =
  class_names :: "string list"
  train_images :: "sample list"
  val_images :: "sample list"
  test_images :: "sample list"
  orig_size :: "nat \<times> nat"

definition plan_splits ::
  "(nat \<Rightarrow> nat) \<Rightarrow> (string \<Rightarrow> (nat \<times> nat) option) \<Rightarrow> node \<Rightarrow> rat \<Rightarrow> layout \<Rightarrow> error + plan" where
  "plan_splits g decode fs val_split folders =
     (let train_dir = train folders; test_dir = test folders in
      case class_names_of fs train_dir of
        Inl e \<Rightarrow> Inl e
      | Inr names \<Rightarrow>
          (let class_to_idx = class_to_idx_of names in
           case collect_train fs train_dir class_to_idx names [] None of
             Inl e \<Rightarrow> Inl e
           | Inr (collected, sample_img) \<Rightarrow>
               (let dims = (case sample_img of
                              None \<Rightarrow> (0, 0)
                            | Some p \<Rightarrow> get_image_dimensions decode fs p);
                    tv = split_train_val g test_dir val_split collected in
                case (case test_dir of
                        None \<Rightarrow> Inr []
                      | Some td \<Rightarrow> collect_test fs td class_to_idx names []) of
                  Inl e \<Rightarrow> Inl e
                | Inr tests \<Rightarrow>
                    Inr \<lparr>class_names = names, train_images = fst tv, val_images = snd tv,
                         test_images = tests, orig_size = dims\<rparr>)))"

text \<open>The manifest (\<^verbatim>\<open>metadata\<close>, lines 321-332).\<close>

datatype split = Train | Val | Test

record 'h manifest =
  numClasses :: nat
  classNames :: "string list"
  trainSamples :: nat
  valSamples :: nat
  testSamples :: nat
  originalWidth :: nat
  originalHeight :: nat
  shardPaths :: "split \<Rightarrow> string list"
  all_checksums :: "string \<rightharpoonup> 'h"
  shardSizeMB :: rat

text \<open>Lines 276-332: the shards of each split are written into the empty directory
  \<open>shards_dir\<close>; the validation and test shards only when there are such samples.\<close>

definition write_splits ::
  "(string \<Rightarrow> nat \<Rightarrow> string \<Rightarrow> string) \<Rightarrow> (string list \<Rightarrow> 'h) \<Rightarrow> node \<Rightarrow> string \<Rightarrow> rat \<Rightarrow> plan \<Rightarrow>
   error + ('h manifest \<times> (string \<rightharpoonup> string list))" where
  "write_splits ser md5 fs shards_dir shard_size_mb pl =
     (let shard_size_bytes = shard_size_mb * 1024 * 1024 in
      case write_shards ser md5 fs Map.empty (train_images pl) (shards_dir @ ''/train'')
             shard_size_bytes of
        Inl e \<Rightarrow> Inl e
      | Inr (train_shards, train_checksums, fl1) \<Rightarrow>
          (case (if val_images pl \<noteq> [] then
                   write_shards ser md5 fs fl1 (val_images pl) (shards_dir @ ''/val'')
                     shard_size_bytes
                 else Inr ([], Map.empty, fl1)) of
             Inl e \<Rightarrow> Inl e
           | Inr (val_shards, val_checksums, fl2) \<Rightarrow>
               (case (if test_images pl \<noteq> [] then
                        write_shards ser md5 fs fl2 (test_images pl) (shards_dir @ ''/test'')
                          shard_size_bytes
                      else Inr ([], Map.empty, fl2)) of
                  Inl e \<Rightarrow> Inl e
                | Inr (test_shards, test_checksums, fl3) \<Rightarrow>
                    Inr (\<lparr>numClasses = length (class_names pl),
                          classNames = class_names pl,
                          trainSamples = length (train_images pl),
                          valSamples = length (val_images pl),
                          testSamples = length (test_images pl),
                          originalWidth = fst (orig_size pl),
                          originalHeight = snd (orig_size pl),
                          shardPaths = (\<lambda>sp. case sp of Train \<Rightarrow> train_shards
                                              | Val \<Rightarrow> val_shards | Test \<Rightarrow> test_shards),
                          all_checksums = train_checksums ++ val_checksums ++ test_checksums,
                          shardSizeMB = shard_size_mb\<rparr>, fl3))))"

text \<open>
  The whole run on the extracted archive. When no layout is found, \<^verbatim>\<open>folders['train']\<close>
  raises. The download, the progress reports and the upload are left out.
\<close>

definition convert_to_tfrecord ::
  "(nat \<Rightarrow> nat) \<Rightarrow> (string \<Rightarrow> (nat \<times> nat) option) \<Rightarrow> (string \<Rightarrow> nat \<Rightarrow> string \<Rightarrow> string) \<Rightarrow>
   (string list \<Rightarrow> 'h) \<Rightarrow> node \<Rightarrow> string \<Rightarrow> rat \<Rightarrow> rat \<Rightarrow>
   error + ('h manifest \<times> (string \<rightharpoonup> string list))" where
  "convert_to_tfrecord g decode ser md5 fs shards_dir shard_size_mb val_split =
     (case find_image_folder fs 4 of
        Inl e \<Rightarrow> Inl e
      | Inr None \<Rightarrow> Inl TypeError
      | Inr (Some folders) \<Rightarrow>
          (case plan_splits g decode fs val_split folders of
             Inl e \<Rightarrow> Inl e
           | Inr pl \<Rightarrow> write_splits ser md5 fs shards_dir shard_size_mb pl))"

subsection \<open>Notions used in the statements and proofs\<close>

text \<open>The number a string of decimal digits denotes.\<close>

definition dec_val :: "string \<Rightarrow> nat" where
  "dec_val s = foldl (\<lambda>a c. 10 * a + (of_char c - 48)) 0 s"


text \<open>The accumulated serialized size of the records of a shard, and what holds of the
  variables of \<^verbatim>\<open>write_shards\<close> at the head of its loop: the list holds the names of the
  shards opened so far, the last of them is the open one, and every earlier one is
  closed, checksummed and was at or over the threshold when it was closed.\<close>

definition rec_size :: "string list \<Rightarrow> nat" where
  "rec_size records = sum_list (map length records)"

definition winv :: "(string list \<Rightarrow> 'h) \<Rightarrow> string \<Rightarrow> rat \<Rightarrow> 'h wstate \<Rightarrow> bool" where
  "winv md5 pre thr s \<longleftrightarrow>
     shard_paths s = map (\<lambda>i. basename (shard_path pre i)) [0..<shard_idx s] \<and>
     (writer s = None \<longrightarrow> shard_idx s = 0) \<and>
     (\<forall>p records. writer s = Some (p, records) \<longrightarrow>
        0 < shard_idx s \<and> p = shard_path pre (shard_idx s - 1) \<and> current_size s = rec_size records) \<and>
     (\<forall>i. Suc i < shard_idx s \<longrightarrow>
        (\<exists>c. files s (shard_path pre i) = Some c \<and>
             checksums s (basename (shard_path pre i)) = Some (md5 c) \<and>
             thr \<le> of_nat (rec_size c))) \<and>
     dom (checksums s) = (\<lambda>i. basename (shard_path pre i)) ` {i. Suc i < shard_idx s}"

text \<open>The records of the samples of a list that can be read, the records in the
  first \<open>n\<close> shards of a prefix, and the records the open writer holds.\<close>

definition written :: "(string \<Rightarrow> nat \<Rightarrow> string \<Rightarrow> string) \<Rightarrow> node \<Rightarrow> sample list \<Rightarrow> string list" where
  "written ser fs images =
     concat (map (\<lambda>img. case create_example ser fs (fst img) (snd img) of
                           None \<Rightarrow> [] | Some r \<Rightarrow> [r]) images)"

definition stored :: "string \<Rightarrow> (string \<rightharpoonup> string list) \<Rightarrow> nat \<Rightarrow> string list" where
  "stored pre fl n =
     concat (map (\<lambda>i. case fl (shard_path pre i) of None \<Rightarrow> [] | Some c \<Rightarrow> c) [0..<n])"

definition buffered :: "'h wstate \<Rightarrow> string list" where
  "buffered s = (case writer s of None \<Rightarrow> [] | Some (p, records) \<Rightarrow> records)"

text \<open>What one call of \<^verbatim>\<open>write_shards\<close> with a prefix leaves behind: the names listed are
  the base names of the numbered paths of the prefix, the checksum map has these names as
  keys, every listed file exists with the digest recorded for it, and no other file of
  the directory is touched.\<close>

definition shards_ok ::
  "(string list \<Rightarrow> 'h) \<Rightarrow> string \<Rightarrow> (string \<rightharpoonup> string list) \<Rightarrow>
   string list \<Rightarrow> (string \<rightharpoonup> 'h) \<Rightarrow> (string \<rightharpoonup> string list) \<Rightarrow> bool" where
  "shards_ok md5 pre fl names cks fl' \<longleftrightarrow>
     names = map (\<lambda>i. basename (shard_path pre i)) [0..<length names] \<and>
     dom cks = set names \<and>
     (\<forall>i<length names. \<exists>c. fl' (shard_path pre i) = Some c \<and> cks (names ! i) = Some (md5 c)) \<and>
     (\<forall>q. (\<forall>i<length names. q \<noteq> shard_path pre i) \<longrightarrow> fl' q = fl q)"

section \<open>Shard names\<close>

lemma of_char_digit_char: "d < 10 \<Longrightarrow> of_char (digit_char d) = (48 + d :: nat)"
proof -
  assume "d < 10"
  then have "d \<in> {0, 1, 2, 3, 4, 5, 6, 7, 8, 9}" by auto
  then show ?thesis by (auto simp: digit_char_def)
qed

lemma dec_val_snoc: "dec_val (s @ [c]) = 10 * dec_val s + (of_char c - 48)"
  by (simp add: dec_val_def)

lemma dec_val_digits: "dec_val (digits n) = n"
proof (induction n rule: digits.induct)
  case (1 n)
  show ?case
  proof (cases "n < 10")
    case True
    then show ?thesis
      by (subst digits.simps) (simp add: dec_val_def of_char_digit_char)
  next
    case False
    then have "dec_val (digits (n div 10)) = n div 10" using 1 by simp
    with False show ?thesis
      by (subst digits.simps) (simp add: dec_val_snoc of_char_digit_char)
  qed
qed

lemma dec_val_zeros: "dec_val (replicate k (CHR ''0'') @ s) = dec_val s"
  by (induction k) (simp_all add: dec_val_def)

lemma dec_val_fmt05d: "dec_val (fmt05d n) = n"
  by (simp add: fmt05d_def dec_val_zeros dec_val_digits)

lemma fmt05d_inj: "fmt05d i = fmt05d j \<Longrightarrow> i = j"
  using dec_val_fmt05d by metis

lemma shard_path_inj: "shard_path pre i = shard_path pre j \<Longrightarrow> i = j"
  by (simp add: shard_path_def fmt05d_inj)

lemma digit_char_no_slash: "d < 10 \<Longrightarrow> digit_char d \<noteq> CHR ''/''"
proof
  assume "d < 10" and "digit_char d = CHR ''/''"
  then have "of_char (digit_char d) = (of_char (CHR ''/'') :: nat)" by simp
  with \<open>d < 10\<close> show False by (simp add: of_char_digit_char)
qed

lemma digits_no_slash: "CHR ''/'' \<notin> set (digits n)"
proof (induction n rule: digits.induct)
  case (1 n)
  show ?case
  proof (cases "n < 10")
    case True
    then show ?thesis
      using digit_char_no_slash [of n] by (subst digits.simps) auto
  next
    case False
    then have "CHR ''/'' \<notin> set (digits (n div 10))" using 1 by simp
    moreover have "digit_char (n mod 10) \<noteq> CHR ''/''" by (rule digit_char_no_slash) simp
    ultimately show ?thesis using False
      by (subst digits.simps) auto
  qed
qed

lemma fmt05d_no_slash: "CHR ''/'' \<notin> set (fmt05d n)"
  using digits_no_slash [of n] by (auto simp: fmt05d_def)

lemma basename_append:
  assumes "CHR ''/'' \<notin> set s"
  shows "basename (p @ s) = basename p @ s"
proof -
  have "takeWhile (\<lambda>c. c \<noteq> CHR ''/'') (rev s @ rev p)
        = rev s @ takeWhile (\<lambda>c. c \<noteq> CHR ''/'') (rev p)"
    by (rule takeWhile_append2) (use assms in auto)
  then show ?thesis by (simp add: basename_def)
qed

lemma basename_shard_path:
  "basename (shard_path pre i) = basename pre @ ''-'' @ fmt05d i @ ''.tfrecord''"
  unfolding shard_path_def
  by (rule basename_append) (use fmt05d_no_slash [of i] in auto)

lemma basename_shard_path_inj:
  "basename (shard_path pre i) = basename (shard_path pre j) \<Longrightarrow> i = j"
  by (simp add: basename_shard_path fmt05d_inj)


section \<open>Properties of the Shard Writer\<close>

lemma close_shard_total: "\<exists>s1. close_shard md5 s = Inr s1"
  by (cases "writer s") (auto simp: close_shard_def)

lemma roll_over_total: "\<exists>s1. roll_over md5 pre thr s = Inr s1"
  using close_shard_total [of md5 s] by (auto simp: roll_over_def Let_def)

lemma write_loop_total: "\<exists>s1. write_loop ser md5 fs pre thr images s = Inr s1"
proof (induction images arbitrary: s)
  case Nil
  show ?case by simp
next
  case (Cons img images)
  obtain s1 where "roll_over md5 pre thr s = Inr s1"
    using roll_over_total by blast
  then show ?case using Cons.IH [of "write_example ser fs img s1"] by simp
qed

lemma winv_init: "winv md5 pre thr (init_wstate fl)"
  by (simp add: winv_def init_wstate_def)

lemma winv_write_example:
  assumes "winv md5 pre thr s"
  shows "winv md5 pre thr (write_example ser fs img s)"
proof (cases "create_example ser fs (fst img) (snd img)")
  case None
  then show ?thesis using assms by (simp add: write_example_def)
next
  case (Some r)
  show ?thesis
  proof (cases "writer s")
    case None
    then show ?thesis using assms Some by (simp add: write_example_def)
  next
    case (Some pr)
    obtain p records where pr: "pr = (p, records)" by (cases pr)
    have w: "write_example ser fs img s =
        s\<lparr>writer := Some (p, records @ [r]), current_size := current_size s + length r\<rparr>"
      using \<open>create_example ser fs (fst img) (snd img) = Some r\<close> Some pr
      by (simp add: write_example_def)
    show ?thesis using assms Some pr unfolding w winv_def
      by (simp add: rec_size_def)
  qed
qed

text \<open>What closing the open shard and opening the next one does to the invariant.\<close>

lemma winv_open_first:
  assumes "winv md5 pre thr s" and "writer s = None"
  shows "winv md5 pre thr
           (s\<lparr>shard_paths := shard_paths s @ [basename (shard_path pre (shard_idx s))],
              writer := Some (shard_path pre (shard_idx s), []),
              files := (files s)(shard_path pre (shard_idx s) \<mapsto> []),
              shard_idx := shard_idx s + 1,
              current_size := 0\<rparr>)"
  using assms by (simp add: winv_def rec_size_def)

lemma winv_open_next:
  assumes inv: "winv md5 pre thr s" and w: "writer s = Some (p, records)"
    and full: "thr \<le> of_nat (current_size s)"
  shows "winv md5 pre thr
           (s\<lparr>checksums := (checksums s)(basename p \<mapsto> md5 records),
              shard_paths := shard_paths s @ [basename (shard_path pre (shard_idx s))],
              writer := Some (shard_path pre (shard_idx s), []),
              files := (files s)(p \<mapsto> records, shard_path pre (shard_idx s) \<mapsto> []),
              shard_idx := shard_idx s + 1,
              current_size := 0\<rparr>)"
proof -
  let ?n = "shard_idx s"
  from inv w have n: "0 < ?n" and p: "p = shard_path pre (?n - 1)"
    and sz: "current_size s = rec_size records"
    by (simp_all add: winv_def)
  from inv have paths: "shard_paths s = map (\<lambda>i. basename (shard_path pre i)) [0..<?n]"
    by (simp add: winv_def)
  from inv have closed: "\<And>i. Suc i < ?n \<Longrightarrow>
        \<exists>c. files s (shard_path pre i) = Some c \<and>
            checksums s (basename (shard_path pre i)) = Some (md5 c) \<and>
            thr \<le> of_nat (rec_size c)"
    by (simp add: winv_def)
  from inv have d: "dom (checksums s) = (\<lambda>i. basename (shard_path pre i)) ` {i. Suc i < ?n}"
    by (simp add: winv_def)
  have closed': "\<exists>c. ((files s)(p \<mapsto> records, shard_path pre ?n \<mapsto> [])) (shard_path pre i) = Some c \<and>
            ((checksums s)(basename p \<mapsto> md5 records)) (basename (shard_path pre i)) = Some (md5 c) \<and>
            thr \<le> of_nat (rec_size c)" if i: "Suc i < ?n + 1" for i
  proof (cases "Suc i = ?n")
    case True
    then have pi: "shard_path pre i = p" using p by (metis diff_Suc_1)
    have "p \<noteq> shard_path pre ?n"
      using p n shard_path_inj [of pre "?n - 1" ?n] by auto
    then show ?thesis using pi full sz by simp
  next
    case False
    with i have lt: "Suc i < ?n" by simp
    have ne1: "shard_path pre i \<noteq> shard_path pre ?n"
      using lt shard_path_inj [of pre i ?n] by auto
    have ne2: "shard_path pre i \<noteq> p"
      using lt p shard_path_inj [of pre i "?n - 1"] by auto
    have ne3: "basename (shard_path pre i) \<noteq> basename p"
      using lt p basename_shard_path_inj [of pre i "?n - 1"] by auto
    show ?thesis using closed [OF lt] ne1 ne2 ne3 by simp
  qed
  have "{i. Suc i < ?n + 1} = insert (?n - 1) {i. Suc i < ?n}"
    using n by auto
  then have d': "dom ((checksums s)(basename p \<mapsto> md5 records))
        = (\<lambda>i. basename (shard_path pre i)) ` {i. Suc i < ?n + 1}"
    using d p by simp
  show ?thesis
    unfolding winv_def using closed' d' paths by (simp add: rec_size_def)
qed

lemma winv_roll_over:
  assumes "winv md5 pre thr s" and "roll_over md5 pre thr s = Inr s1"
  shows "winv md5 pre thr s1"
proof (cases "writer s")
  case None
  then have "s1 = s\<lparr>shard_paths := shard_paths s @ [basename (shard_path pre (shard_idx s))],
              writer := Some (shard_path pre (shard_idx s), []),
              files := (files s)(shard_path pre (shard_idx s) \<mapsto> []),
              shard_idx := shard_idx s + 1,
              current_size := 0\<rparr>"
    using assms(2) by (auto simp: roll_over_def close_shard_def Let_def)
  then show ?thesis using winv_open_first [OF assms(1) None] by simp
next
  case (Some pr)
  obtain p records where pr: "pr = (p, records)" by (cases pr)
  show ?thesis
  proof (cases "thr \<le> of_nat (current_size s)")
    case True
    then have "s1 = s\<lparr>checksums := (checksums s)(basename p \<mapsto> md5 records),
              shard_paths := shard_paths s @ [basename (shard_path pre (shard_idx s))],
              writer := Some (shard_path pre (shard_idx s), []),
              files := (files s)(p \<mapsto> records, shard_path pre (shard_idx s) \<mapsto> []),
              shard_idx := shard_idx s + 1,
              current_size := 0\<rparr>"
      using assms(2) Some pr by (auto simp: roll_over_def close_shard_def Let_def)
    then show ?thesis using winv_open_next [OF assms(1) _ True, of p records] Some pr by simp
  next
    case False
    then have "s1 = s" using assms(2) Some by (auto simp: roll_over_def)
    then show ?thesis using assms(1) by simp
  qed
qed

lemma winv_write_loop:
  "winv md5 pre thr s \<Longrightarrow> write_loop ser md5 fs pre thr images s = Inr s1 \<Longrightarrow> winv md5 pre thr s1"
proof (induction images arbitrary: s)
  case Nil
  then show ?case by simp
next
  case (Cons img images)
  obtain s2 where r: "roll_over md5 pre thr s = Inr s2"
    using roll_over_total by blast
  have "winv md5 pre thr (write_example ser fs img s2)"
    using winv_write_example winv_roll_over [OF Cons.prems(1) r] by blast
  then show ?case using Cons.IH Cons.prems(2) r by simp
qed

text \<open>The state \<^verbatim>\<open>write_shards\<close> returns from: every shard listed is closed.\<close>

lemma write_shards_result:
  "\<exists>s. winv md5 pre thr s \<and>
     write_shards ser md5 fs fl images pre thr =
       (case writer s of
          None \<Rightarrow> Inr (shard_paths s, checksums s, files s)
        | Some (p, records) \<Rightarrow>
            Inr (shard_paths s, (checksums s)(basename p \<mapsto> md5 records), (files s)(p \<mapsto> records)))"
proof -
  obtain s where s: "write_loop ser md5 fs pre thr images (init_wstate fl) = Inr s"
    using write_loop_total by blast
  have "winv md5 pre thr s"
    using winv_write_loop [OF winv_init s] .
  moreover have "write_shards ser md5 fs fl images pre thr =
       (case writer s of
          None \<Rightarrow> Inr (shard_paths s, checksums s, files s)
        | Some (p, records) \<Rightarrow>
            Inr (shard_paths s, (checksums s)(basename p \<mapsto> md5 records), (files s)(p \<mapsto> records)))"
    using s by (auto simp: write_shards_def close_shard_def Let_def split: option.splits)
  ultimately show ?thesis by blast
qed

text \<open>
  C8. An empty sample sequence gives no shard file: the shard list and the checksum map
  are empty and the output directory is as it was, so no shard 0 is created.
\<close>

theorem write_shards_empty:
  "write_shards ser md5 fs fl [] output_prefix shard_size_bytes = Inr ([], Map.empty, fl)"
  by (simp add: write_shards_def init_wstate_def close_shard_def)

text \<open>
  C9. The checksum map has exactly the names of the shard list as its keys, and the
  Shard Writer returns for every input.
\<close>

theorem write_shards_checksum_keys:
  "\<exists>names cks fl'. write_shards ser md5 fs fl images output_prefix shard_size_bytes
       = Inr (names, cks, fl') \<and> dom cks = set names"
proof -
  obtain s where inv: "winv md5 output_prefix shard_size_bytes s"
    and res: "write_shards ser md5 fs fl images output_prefix shard_size_bytes =
       (case writer s of
          None \<Rightarrow> Inr (shard_paths s, checksums s, files s)
        | Some (p, records) \<Rightarrow>
            Inr (shard_paths s, (checksums s)(basename p \<mapsto> md5 records), (files s)(p \<mapsto> records)))"
    using write_shards_result by blast
  show ?thesis
  proof (cases "writer s")
    case None
    then have "shard_idx s = 0" using inv by (simp add: winv_def)
    then have "dom (checksums s) = set (shard_paths s)" using inv by (simp add: winv_def)
    then show ?thesis using res None by simp
  next
    case (Some pr)
    obtain p records where pr: "pr = (p, records)" by (cases pr)
    let ?n = "shard_idx s"
    from inv Some pr have n: "0 < ?n" and p: "p = shard_path output_prefix (?n - 1)"
      by (simp_all add: winv_def)
    have "{0..<?n} = insert (?n - 1) {i. Suc i < ?n}" using n by auto
    then have "dom ((checksums s)(basename p \<mapsto> md5 records)) = set (shard_paths s)"
      using inv p by (simp add: winv_def)
    then show ?thesis using res Some pr by simp
  qed
qed



text \<open>A run with two samples of which each fills a shard.\<close>

lemma ex_names:
  "shard_path ''out/train'' 0 = ''out/train-00000.tfrecord''"
  "shard_path ''out/train'' (Suc 0) = ''out/train-00001.tfrecord''"
  "basename ''out/train-00000.tfrecord'' = ''train-00000.tfrecord''"
  "basename ''out/train-00001.tfrecord'' = ''train-00001.tfrecord''"
  by code_simp+

lemma ex_run:
  "write_shards (\<lambda>b l n. b) length
     (Dir [(''a.png'', File (Some ''xyz'')), (''b.png'', File (Some ''uv''))]) Map.empty
     [([''a.png''], 0), ([''b.png''], 0)] ''out/train'' 2
   = Inr ([''train-00000.tfrecord'', ''train-00001.tfrecord''],
          [''train-00000.tfrecord'' \<mapsto> 1, ''train-00001.tfrecord'' \<mapsto> 1],
          [''out/train-00000.tfrecord'' \<mapsto> [''xyz''], ''out/train-00001.tfrecord'' \<mapsto> [''uv'']])"
  by (simp add: write_shards_def init_wstate_def roll_over_def close_shard_def write_example_def
      create_example_def read_file_def ex_names Let_def)


text \<open>
  Within one call: for every shard in the returned list, the file of that name exists
  when the call returns, and the digest of its content is the checksum recorded under
  its name.
\<close>

theorem write_shards_checksum_valid:
  "\<exists>names cks fl'. write_shards ser md5 fs fl images output_prefix shard_size_bytes
       = Inr (names, cks, fl') \<and>
     (\<forall>i<length names. names ! i = basename (shard_path output_prefix i) \<and>
        (\<exists>c. fl' (shard_path output_prefix i) = Some c \<and> cks (names ! i) = Some (md5 c)))"
proof -
  obtain s where inv: "winv md5 output_prefix shard_size_bytes s"
    and res: "write_shards ser md5 fs fl images output_prefix shard_size_bytes =
       (case writer s of
          None \<Rightarrow> Inr (shard_paths s, checksums s, files s)
        | Some (p, records) \<Rightarrow>
            Inr (shard_paths s, (checksums s)(basename p \<mapsto> md5 records), (files s)(p \<mapsto> records)))"
    using write_shards_result by blast
  let ?n = "shard_idx s"
  from inv have names: "shard_paths s = map (\<lambda>i. basename (shard_path output_prefix i)) [0..<?n]"
    by (simp add: winv_def)
  from inv have closed: "\<And>i. Suc i < ?n \<Longrightarrow>
        \<exists>c. files s (shard_path output_prefix i) = Some c \<and>
            checksums s (basename (shard_path output_prefix i)) = Some (md5 c)"
    by (auto simp: winv_def)
  show ?thesis
  proof (cases "writer s")
    case None
    then have "?n = 0" using inv by (simp add: winv_def)
    then show ?thesis using res None names by simp
  next
    case (Some pr)
    obtain p records where pr: "pr = (p, records)" by (cases pr)
    from inv Some pr have n: "0 < ?n" and p: "p = shard_path output_prefix (?n - 1)"
      by (simp_all add: winv_def)
    define cks where "cks = (checksums s)(basename p \<mapsto> md5 records)"
    define fl' where "fl' = (files s)(p \<mapsto> records)"
    have run: "write_shards ser md5 fs fl images output_prefix shard_size_bytes
        = Inr (shard_paths s, cks, fl')"
      using res Some pr by (simp add: cks_def fl'_def)
    have "shard_paths s ! i = basename (shard_path output_prefix i) \<and>
          (\<exists>c. fl' (shard_path output_prefix i) = Some c \<and> cks (shard_paths s ! i) = Some (md5 c))"
      if i: "i < length (shard_paths s)" for i
    proof -
      from i have i': "i < ?n" by (simp add: names)
      then have nth: "shard_paths s ! i = basename (shard_path output_prefix i)"
        by (simp add: names)
      show ?thesis
      proof (cases "Suc i = ?n")
        case True
        then have "shard_path output_prefix i = p" using p by (metis diff_Suc_1)
        then show ?thesis using nth by (simp add: cks_def fl'_def)
      next
        case False
        with i' have lt: "Suc i < ?n" by simp
        have ne2: "shard_path output_prefix i \<noteq> p"
          using lt p shard_path_inj [of output_prefix i "?n - 1"] by auto
        have ne3: "basename (shard_path output_prefix i) \<noteq> basename p"
          using lt p basename_shard_path_inj [of output_prefix i "?n - 1"] by auto
        show ?thesis using closed [OF lt] ne2 ne3 nth by (simp add: cks_def fl'_def)
      qed
    qed
    with run show ?thesis by blast
  qed
qed


theorem write_shards_checksum_valid_witness:
  "\<exists>names cks fl'.
     write_shards (\<lambda>b l n. b) length
       (Dir [(''a.png'', File (Some ''xyz'')), (''b.png'', File (Some ''uv''))]) Map.empty
       [([''a.png''], 0), ([''b.png''], 0)] ''out/train'' 2 = Inr (names, cks, fl') \<and>
     Suc 0 < length names \<and>
     names ! Suc 0 = basename (shard_path ''out/train'' (Suc 0)) \<and>
     (\<exists>c. fl' (shard_path ''out/train'' (Suc 0)) = Some c \<and> cks (names ! Suc 0) = Some (length c))"
proof -
  obtain names cks fl' where run:
    "write_shards (\<lambda>b l n. b) length
       (Dir [(''a.png'', File (Some ''xyz'')), (''b.png'', File (Some ''uv''))]) Map.empty
       [([''a.png''], 0), ([''b.png''], 0)] ''out/train'' 2 = Inr (names, cks, fl')"
    and all: "\<forall>i<length names. names ! i = basename (shard_path ''out/train'' i) \<and>
        (\<exists>c. fl' (shard_path ''out/train'' i) = Some c \<and> cks (names ! i) = Some (length c))"
    using write_shards_checksum_valid
      [of "\<lambda>b l n. b" length
          "Dir [(''a.png'', File (Some ''xyz'')), (''b.png'', File (Some ''uv''))]" Map.empty
          "[([''a.png''], 0), ([''b.png''], 0)]" "''out/train''" 2]
    by blast
  have "Suc 0 < length names" using run by (auto simp: ex_run)
  with run all show ?thesis by blast
qed

text \<open>
  C4. Every shard but the last of the returned list holds records whose accumulated
  serialized size is at or over the threshold: the writer moves to a new shard only
  when the open one has reached the threshold.
\<close>

theorem write_shards_rollover_at_threshold:
  "\<exists>names cks fl'. write_shards ser md5 fs fl images output_prefix shard_size_bytes
       = Inr (names, cks, fl') \<and>
     (\<forall>i. Suc i < length names \<longrightarrow>
        (\<exists>c. fl' (shard_path output_prefix i) = Some c \<and> shard_size_bytes \<le> of_nat (rec_size c)))"
proof -
  obtain s where inv: "winv md5 output_prefix shard_size_bytes s"
    and res: "write_shards ser md5 fs fl images output_prefix shard_size_bytes =
       (case writer s of
          None \<Rightarrow> Inr (shard_paths s, checksums s, files s)
        | Some (p, records) \<Rightarrow>
            Inr (shard_paths s, (checksums s)(basename p \<mapsto> md5 records), (files s)(p \<mapsto> records)))"
    using write_shards_result by blast
  let ?n = "shard_idx s"
  from inv have names: "length (shard_paths s) = ?n"
    by (simp add: winv_def)
  from inv have closed: "\<And>i. Suc i < ?n \<Longrightarrow>
        \<exists>c. files s (shard_path output_prefix i) = Some c \<and> shard_size_bytes \<le> of_nat (rec_size c)"
    by (auto simp: winv_def)
  show ?thesis
  proof (cases "writer s")
    case None
    then show ?thesis using res closed names by simp
  next
    case (Some pr)
    obtain p records where pr: "pr = (p, records)" by (cases pr)
    from inv Some pr have p: "p = shard_path output_prefix (?n - 1)"
      by (simp add: winv_def)
    have "\<exists>c. ((files s)(p \<mapsto> records)) (shard_path output_prefix i) = Some c \<and>
            shard_size_bytes \<le> of_nat (rec_size c)"
      if lt: "Suc i < ?n" for i
    proof -
      have "shard_path output_prefix i \<noteq> p"
        using lt p shard_path_inj [of output_prefix i "?n - 1"] by auto
      then show ?thesis using closed [OF lt] by simp
    qed
    then show ?thesis using res Some pr names by simp
  qed
qed


theorem write_shards_rollover_at_threshold_witness:
  "\<exists>names cks fl'.
     write_shards (\<lambda>b l n. b) length
       (Dir [(''a.png'', File (Some ''xyz'')), (''b.png'', File (Some ''uv''))]) Map.empty
       [([''a.png''], 0), ([''b.png''], 0)] ''out/train'' 2 = Inr (names, cks, fl') \<and>
     Suc 0 < length names \<and>
     (\<exists>c. fl' (shard_path ''out/train'' 0) = Some c \<and> (2::rat) \<le> of_nat (rec_size c))"
proof -
  obtain names cks fl' where run:
    "write_shards (\<lambda>b l n. b) length
       (Dir [(''a.png'', File (Some ''xyz'')), (''b.png'', File (Some ''uv''))]) Map.empty
       [([''a.png''], 0), ([''b.png''], 0)] ''out/train'' 2 = Inr (names, cks, fl')"
    and all: "\<forall>i. Suc i < length names \<longrightarrow>
        (\<exists>c. fl' (shard_path ''out/train'' i) = Some c \<and> (2::rat) \<le> of_nat (rec_size c))"
    using write_shards_rollover_at_threshold
      [of "\<lambda>b l n. b" length
          "Dir [(''a.png'', File (Some ''xyz'')), (''b.png'', File (Some ''uv''))]" Map.empty
          "[([''a.png''], 0), ([''b.png''], 0)]" "''out/train''" 2]
    by blast
  have "Suc 0 < length names" using run by (auto simp: ex_run)
  with run all show ?thesis by blast
qed

section \<open>Properties of the Split Planner\<close>


lemma mset_shuffle_from: "k < length x \<Longrightarrow> mset (shuffle_from g k x) = mset x"
proof (induction k arbitrary: x)
  case 0
  show ?case by simp
next
  case (Suc k)
  let ?j = "g (Suc k) mod (Suc k + 1)"
  let ?y = "x[Suc k := x ! ?j, ?j := x ! Suc k]"
  have "?j < Suc k + 1" by (rule mod_less_divisor) simp
  then have j: "?j < length x" using Suc.prems by arith
  have "mset ?y = mset x" using Suc.prems j by (simp add: mset_swap)
  moreover have "mset (shuffle_from g k ?y) = mset ?y"
    using Suc.prems by (intro Suc.IH) simp
  ultimately show ?case by (simp add: Let_def)
qed

lemma mset_shuffle: "mset (shuffle g x) = mset x"
proof (cases x)
  case Nil
  then show ?thesis by (simp add: shuffle_def)
next
  case (Cons a as)
  then show ?thesis unfolding shuffle_def by (intro mset_shuffle_from) simp
qed






text \<open>The draws of the example are those the generator seeded with 42 makes for a list
  of four elements.\<close>

lemma shuffle_example:
  "shuffle (\<lambda>i. if i = 1 then 1 else 0) [0, 1, 2, 3 :: nat] = [2, 1, 3, 0]"
  by (simp add: shuffle_def numeral_3_eq_3 Let_def)


section \<open>Dicts and directory listings\<close>

lemma foldl_update_map_of:
  "foldl (\<lambda>m kv. m(fst kv \<mapsto> snd kv)) m0 kvs = m0 ++ map_of (rev kvs)"
proof (induction kvs arbitrary: m0)
  case Nil
  show ?case by simp
next
  case (Cons kv kvs)
  obtain k v where kv: "kv = (k, v)" by (cases kv)
  have "m0 ++ map_of (rev (kv # kvs)) = m0 ++ (map_of [kv] ++ map_of (rev kvs))"
    by (simp only: rev.simps map_of_append)
  also have "\<dots> = (m0 ++ map_of [kv]) ++ map_of (rev kvs)"
    by (simp only: map_add_assoc)
  also have "m0 ++ map_of [kv] = m0(fst kv \<mapsto> snd kv)"
    by (simp add: kv)
  finally have step: "m0(fst kv \<mapsto> snd kv) ++ map_of (rev kvs) = m0 ++ map_of (rev (kv # kvs))"
    by (rule sym)
  have "foldl (\<lambda>m kv. m(fst kv \<mapsto> snd kv)) m0 (kv # kvs)
        = foldl (\<lambda>m kv. m(fst kv \<mapsto> snd kv)) (m0(fst kv \<mapsto> snd kv)) kvs"
    by (simp only: foldl_Cons)
  also have "\<dots> = m0(fst kv \<mapsto> snd kv) ++ map_of (rev kvs)"
    by (rule Cons.IH)
  finally show ?case by (simp only: step)
qed

lemma dict_of_map_of: "dict_of kvs = map_of (rev kvs)"
  by (simp add: dict_of_def foldl_update_map_of)

lemma dict_of_SomeD: "dict_of kvs k = Some v \<Longrightarrow> (k, v) \<in> set kvs"
  unfolding dict_of_map_of by (drule map_of_SomeD) simp

lemma subdir_lower_SomeD:
  "dict_of (map (\<lambda>d. (lower d, d)) subdirs) name = Some d \<Longrightarrow> d \<in> set subdirs \<and> lower d = name"
  by (drule dict_of_SomeD) auto




section \<open>Properties of the Class Indexer\<close>

lemma collect_images_set:
  "collect_images fs class_dir idx = Inr imgs \<Longrightarrow> s \<in> set imgs \<Longrightarrow>
     \<exists>file. fst s = class_dir @ [file] \<and> snd s = idx"
  by (auto simp: collect_images_def split: sum.splits)

text \<open>Every sample that the loops over the classes add lies in the folder of a class of
  the list and carries the label the dict gives that class.\<close>

lemma collect_train_set:
  "collect_train fs train_dir c2i names acc si = Inr (out, so) \<Longrightarrow> s \<in> set out \<Longrightarrow>
     s \<in> set acc \<or>
     (\<exists>c file. c \<in> set names \<and> fst s = train_dir @ [c, file] \<and> c2i c = Some (snd s))"
proof (induction names arbitrary: acc si)
  case Nil
  then show ?case by simp
next
  case (Cons c names)
  from Cons.prems(1) obtain idx imgs where idx: "c2i c = Some idx"
    and imgs: "collect_images fs (train_dir @ [c]) idx = Inr imgs"
    and rest: "\<exists>si'. collect_train fs train_dir c2i names (acc @ imgs) si' = Inr (out, so)"
    by (auto split: option.splits sum.splits)
  from rest obtain si' where "collect_train fs train_dir c2i names (acc @ imgs) si' = Inr (out, so)"
    by blast
  from Cons.IH [OF this Cons.prems(2)]
  show ?case
  proof (elim disjE)
    assume "s \<in> set (acc @ imgs)"
    then show ?thesis using collect_images_set [OF imgs, of s] idx by auto
  next
    assume "\<exists>c file. c \<in> set names \<and> fst s = train_dir @ [c, file] \<and> c2i c = Some (snd s)"
    then show ?thesis by auto
  qed
qed

lemma collect_test_set:
  "collect_test fs test_dir c2i names acc = Inr out \<Longrightarrow> s \<in> set out \<Longrightarrow>
     s \<in> set acc \<or>
     (\<exists>c file. c \<in> set names \<and> fst s = test_dir @ [c, file] \<and> c2i c = Some (snd s))"
proof (induction names arbitrary: acc)
  case Nil
  then show ?case by simp
next
  case (Cons c names)
  show ?case
  proof (cases "exists fs (test_dir @ [c])")
    case False
    then have "collect_test fs test_dir c2i names acc = Inr out"
      using Cons.prems(1) by simp
    from Cons.IH [OF this Cons.prems(2)] show ?thesis by auto
  next
    case True
    with Cons.prems(1) obtain idx imgs where idx: "c2i c = Some idx"
      and imgs: "collect_images fs (test_dir @ [c]) idx = Inr imgs"
      and rest: "collect_test fs test_dir c2i names (acc @ imgs) = Inr out"
      by (auto simp: Let_def split: option.splits sum.splits)
    from Cons.IH [OF rest Cons.prems(2)]
    show ?thesis
    proof (elim disjE)
      assume "s \<in> set (acc @ imgs)"
      then show ?thesis using collect_images_set [OF imgs, of s] idx by auto
    next
      assume "\<exists>c file. c \<in> set names \<and> fst s = test_dir @ [c, file] \<and> c2i c = Some (snd s)"
      then show ?thesis by auto
    qed
  qed
qed


text \<open>What a plan is made of.\<close>

lemma plan_splitsD:
  assumes "plan_splits g decode fs f folders = Inr pl"
  shows "\<exists>collected si.
           class_names_of fs (train folders) = Inr (class_names pl) \<and>
           collect_train fs (train folders) (class_to_idx_of (class_names pl)) (class_names pl) [] None
             = Inr (collected, si) \<and>
           train_images pl = fst (split_train_val g (test folders) f collected) \<and>
           val_images pl = snd (split_train_val g (test folders) f collected) \<and>
           (case test folders of
              None \<Rightarrow> test_images pl = []
            | Some td \<Rightarrow>
                collect_test fs td (class_to_idx_of (class_names pl)) (class_names pl) [] = Inr (test_images pl))"
  using assms
  by (auto simp: plan_splits_def Let_def split: sum.splits option.splits prod.splits)

text \<open>
  C10. The test samples of a plan lie in the test folder, in a class subfolder whose name
  is one of the class folders found under the train folder, and carry the label of that
  class; the class list itself is read from the train folder alone. So a folder that is
  only under the test folder gives no sample and no label.
\<close>

theorem test_samples_from_train_classes:
  assumes "plan_splits g decode fs f folders = Inr pl"
  shows "class_names_of fs (train folders) = Inr (class_names pl) \<and>
         (\<forall>s \<in> set (test_images pl). \<exists>td c file.
            test folders = Some td \<and> c \<in> set (class_names pl) \<and> fst s = td @ [c, file] \<and>
            class_to_idx_of (class_names pl) c = Some (snd s))"
proof -
  let ?c2i = "class_to_idx_of (class_names pl)"
  from plan_splitsD [OF assms] have
    names: "class_names_of fs (train folders) = Inr (class_names pl)"
    and tests: "case test folders of
              None \<Rightarrow> test_images pl = []
            | Some td \<Rightarrow> collect_test fs td ?c2i (class_names pl) [] = Inr (test_images pl)"
    by blast+
  have "\<exists>td c file. test folders = Some td \<and> c \<in> set (class_names pl) \<and> fst s = td @ [c, file] \<and>
            ?c2i c = Some (snd s)" if s: "s \<in> set (test_images pl)" for s
  proof (cases "test folders")
    case None
    then show ?thesis using tests s by simp
  next
    case (Some td)
    then have "collect_test fs td ?c2i (class_names pl) [] = Inr (test_images pl)"
      using tests by simp
    from collect_test_set [OF this s] show ?thesis using Some by simp
  qed
  with names show ?thesis by blast
qed

text \<open>An archive with a train and a test folder; the class \<open>bird\<close> is only under the
  test folder.\<close>

lemma plan_example:
  "plan_splits (\<lambda>i. 0) (\<lambda>b. None)
     (Dir [(''train'', Dir [(''dog'', Dir [(''b.png'', File (Some ''B''))]),
                            (''cat'', Dir [(''a.png'', File (Some ''A''))])]),
           (''test'', Dir [(''bird'', Dir [(''z.png'', File (Some ''Z''))]),
                           (''cat'', Dir [(''t.png'', File (Some ''T''))])])])
     (1 / 5) \<lparr>train = [''train''], test = Some [''test''], base = []\<rparr>
   = Inr \<lparr>class_names = [''cat'', ''dog''],
          train_images = [([''train'', ''dog'', ''b.png''], 1), ([''train'', ''cat'', ''a.png''], 0)],
          val_images = [],
          test_images = [([''test'', ''cat'', ''t.png''], 0)],
          orig_size = (0, 0)\<rparr>"
  by (simp add: plan_splits_def class_names_of_def class_to_idx_of_def dict_of_def listdir_def
      isdir_def exists_def collect_images_def is_image_name_def extensions_def endswith_def
      lower_def lower_char_def get_image_dimensions_def read_file_def split_train_val_def
      shuffle_def Let_def)

theorem test_samples_from_train_classes_witness:
  "\<exists>c file. c \<in> set [''cat'', ''dog''] \<and>
      [''test'', ''cat'', ''t.png''] = [''test''] @ [c, file] \<and>
      class_to_idx_of [''cat'', ''dog''] c = Some 0"
proof -
  from test_samples_from_train_classes [OF plan_example]
  have "\<forall>s \<in> set [([''test'', ''cat'', ''t.png''], 0 :: nat)]. \<exists>td c file.
      Some [''test''] = Some td \<and> c \<in> set [''cat'', ''dog''] \<and> fst s = td @ [c, file] \<and>
      class_to_idx_of [''cat'', ''dog''] c = Some (snd s)" by simp
  then have "\<exists>td c file.
      Some [''test''] = Some td \<and> c \<in> set [''cat'', ''dog''] \<and>
      fst ([''test'', ''cat'', ''t.png''], 0 :: nat) = td @ [c, file] \<and>
      class_to_idx_of [''cat'', ''dog''] c = Some (snd ([''test'', ''cat'', ''t.png''], 0 :: nat))"
    by simp
  then show ?thesis by auto
qed






section \<open>Properties of the Layout Resolver\<close>


lemma find_test_Some:
  "find_test sl p ts = Some q \<Longrightarrow> \<exists>t \<in> set ts. \<exists>e. sl t = Some e \<and> q = p @ [e]"
  by (induction ts) (auto split: option.splits)







section \<open>The records in the shards\<close>

lemma stored_update_other:
  assumes "\<And>i. i < n \<Longrightarrow> shard_path pre i \<noteq> p"
  shows "stored pre (fl(p \<mapsto> c)) n = stored pre fl n"
proof -
  have "map (\<lambda>i. case (fl(p \<mapsto> c)) (shard_path pre i) of None \<Rightarrow> [] | Some c \<Rightarrow> c) [0..<n]
        = map (\<lambda>i. case fl (shard_path pre i) of None \<Rightarrow> [] | Some c \<Rightarrow> c) [0..<n]"
    by (rule map_cong) (use assms in auto)
  then show ?thesis by (simp only: stored_def)
qed

lemma stored_Suc:
  "stored pre fl (Suc n) = stored pre fl n @ (case fl (shard_path pre n) of None \<Rightarrow> [] | Some c \<Rightarrow> c)"
  by (simp add: stored_def)

lemma written_snoc:
  "written ser fs (images @ [img]) =
     written ser fs images @ (case create_example ser fs (fst img) (snd img) of
                                None \<Rightarrow> [] | Some r \<Rightarrow> [r])"
  by (simp add: written_def)

lemma cov_write_example:
  assumes "winv md5 pre thr s" and "writer s \<noteq> None"
    and "stored pre (files s) (shard_idx s - 1) @ buffered s = written ser fs done"
  shows "stored pre (files (write_example ser fs img s)) (shard_idx (write_example ser fs img s) - 1)
           @ buffered (write_example ser fs img s) = written ser fs (done @ [img])"
proof (cases "create_example ser fs (fst img) (snd img)")
  case None
  then show ?thesis using assms(3) by (simp add: write_example_def written_snoc)
next
  case (Some r)
  from assms(2) obtain p records where w: "writer s = Some (p, records)" by auto
  show ?thesis using assms(3) Some w
    by (simp add: write_example_def written_snoc buffered_def)
qed

lemma cov_roll_over:
  assumes inv: "winv md5 pre thr s" and r: "roll_over md5 pre thr s = Inr s1"
    and cov: "stored pre (files s) (shard_idx s - 1) @ buffered s = W"
  shows "stored pre (files s1) (shard_idx s1 - 1) @ buffered s1 = W \<and> writer s1 \<noteq> None"
proof (cases "writer s")
  case None
  then have n0: "shard_idx s = 0" using inv by (simp add: winv_def)
  from None r have "s1 = s\<lparr>shard_paths := shard_paths s @ [basename (shard_path pre (shard_idx s))],
              writer := Some (shard_path pre (shard_idx s), []),
              files := (files s)(shard_path pre (shard_idx s) \<mapsto> []),
              shard_idx := shard_idx s + 1,
              current_size := 0\<rparr>"
    by (auto simp: roll_over_def close_shard_def Let_def)
  then show ?thesis using cov None n0 by (simp add: buffered_def stored_def)
next
  case (Some pr)
  obtain p records where pr: "pr = (p, records)" by (cases pr)
  let ?n = "shard_idx s"
  from inv Some pr have n: "0 < ?n" and p: "p = shard_path pre (?n - 1)"
    by (simp_all add: winv_def)
  show ?thesis
  proof (cases "thr \<le> of_nat (current_size s)")
    case False
    then have "s1 = s" using r Some by (auto simp: roll_over_def)
    then show ?thesis using cov Some by simp
  next
    case True
    then have s1: "s1 = s\<lparr>checksums := (checksums s)(basename p \<mapsto> md5 records),
              shard_paths := shard_paths s @ [basename (shard_path pre ?n)],
              writer := Some (shard_path pre ?n, []),
              files := (files s)(p \<mapsto> records, shard_path pre ?n \<mapsto> []),
              shard_idx := ?n + 1,
              current_size := 0\<rparr>"
      using r Some pr by (auto simp: roll_over_def close_shard_def Let_def)
    let ?fl = "(files s)(p \<mapsto> records)"
    have a: "stored pre (?fl(shard_path pre ?n \<mapsto> [])) ?n = stored pre ?fl ?n"
      by (rule stored_update_other) (use shard_path_inj [of pre _ ?n] in auto)
    have "Suc (?n - 1) = ?n" using n by simp
    then have "stored pre ?fl ?n = stored pre ?fl (?n - 1) @ records"
      using stored_Suc [of pre ?fl "?n - 1"] p by simp
    moreover have "stored pre ?fl (?n - 1) = stored pre (files s) (?n - 1)"
      by (rule stored_update_other) (use p n shard_path_inj [of pre _ "?n - 1"] in auto)
    ultimately have "stored pre (?fl(shard_path pre ?n \<mapsto> [])) ?n = W"
      using a cov Some pr by (simp add: buffered_def)
    then show ?thesis by (simp add: s1 buffered_def)
  qed
qed

lemma cov_write_loop:
  "winv md5 pre thr s \<Longrightarrow>
   stored pre (files s) (shard_idx s - 1) @ buffered s = written ser fs done \<Longrightarrow>
   write_loop ser md5 fs pre thr images s = Inr s1 \<Longrightarrow>
   stored pre (files s1) (shard_idx s1 - 1) @ buffered s1 = written ser fs (done @ images)"
proof (induction images arbitrary: s "done")
  case Nil
  then show ?case by simp
next
  case (Cons img images)
  obtain s2 where r: "roll_over md5 pre thr s = Inr s2"
    using roll_over_total by blast
  have inv2: "winv md5 pre thr s2" by (rule winv_roll_over [OF Cons.prems(1) r])
  from cov_roll_over [OF Cons.prems(1) r Cons.prems(2)]
  have cov2: "stored pre (files s2) (shard_idx s2 - 1) @ buffered s2 = written ser fs done"
    and w2: "writer s2 \<noteq> None" by simp_all
  have inv3: "winv md5 pre thr (write_example ser fs img s2)"
    by (rule winv_write_example [OF inv2])
  have cov3: "stored pre (files (write_example ser fs img s2))
                (shard_idx (write_example ser fs img s2) - 1)
              @ buffered (write_example ser fs img s2) = written ser fs (done @ [img])"
    by (rule cov_write_example [OF inv2 w2 cov2])
  have "write_loop ser md5 fs pre thr images (write_example ser fs img s2) = Inr s1"
    using Cons.prems(3) r by simp
  from Cons.IH [OF inv3 cov3 this] show ?case by simp
qed

text \<open>The shards of one call hold, in order, the records of the samples that could be
  read, and nothing else.\<close>

lemma write_shards_records:
  "\<exists>names cks fl'. write_shards ser md5 fs fl images pre thr = Inr (names, cks, fl') \<and>
     stored pre fl' (length names) = written ser fs images"
proof -
  obtain s where s: "write_loop ser md5 fs pre thr images (init_wstate fl) = Inr s"
    using write_loop_total by blast
  have inv: "winv md5 pre thr s"
    using winv_write_loop [OF winv_init s] .
  have "stored pre (files (init_wstate fl)) (shard_idx (init_wstate fl) - 1)
          @ buffered (init_wstate fl) = written ser fs []"
    by (simp add: init_wstate_def stored_def buffered_def written_def)
  from cov_write_loop [OF winv_init this s]
  have cov: "stored pre (files s) (shard_idx s - 1) @ buffered s = written ser fs images"
    by simp
  from inv have len: "length (shard_paths s) = shard_idx s" by (simp add: winv_def)
  show ?thesis
  proof (cases "writer s")
    case None
    then have "shard_idx s = 0" using inv by (simp add: winv_def)
    then show ?thesis using s None cov len
      by (simp add: write_shards_def close_shard_def buffered_def)
  next
    case (Some pr)
    obtain p records where pr: "pr = (p, records)" by (cases pr)
    let ?n = "shard_idx s"
    from inv Some pr have n: "0 < ?n" and p: "p = shard_path pre (?n - 1)"
      by (simp_all add: winv_def)
    let ?fl = "(files s)(p \<mapsto> records)"
    have run: "write_shards ser md5 fs fl images pre thr
        = Inr (shard_paths s, (checksums s)(basename p \<mapsto> md5 records), ?fl)"
      using s Some pr by (simp add: write_shards_def close_shard_def)
    have "Suc (?n - 1) = ?n" using n by simp
    then have "stored pre ?fl ?n = stored pre ?fl (?n - 1) @ records"
      using stored_Suc [of pre ?fl "?n - 1"] p by simp
    moreover have "stored pre ?fl (?n - 1) = stored pre (files s) (?n - 1)"
      by (rule stored_update_other) (use p n shard_path_inj [of pre _ "?n - 1"] in auto)
    ultimately have "stored pre ?fl ?n = written ser fs images"
      using cov Some pr by (simp add: buffered_def)
    with run len show ?thesis by simp
  qed
qed

section \<open>Properties of the conversion\<close>

lemma length_written:
  "length (written ser fs images)
     = length (filter (\<lambda>s. read_file fs (fst s) \<noteq> None) images)"
  by (induction images) (auto simp: written_def create_example_def split: option.splits)

lemma write_shards_total:
  "\<exists>names cks fl'. write_shards ser md5 fs fl images pre thr = Inr (names, cks, fl')"
  using write_shards_records [of ser md5 fs fl images pre thr] by blast

text \<open>
  C3, as the code has it. Once the layout is found and the samples are planned, the
  conversion completes whatever images cannot be read. The manifest counts the train
  samples of the plan: \<open>trainSamples\<close> is the length of the train list, unreadable images
  included. The train shards hold one record for each train sample that can be read, in
  the order of the list, so an unreadable image is left out of the shards and not out of
  the count.
\<close>

theorem convert_counts_planned_samples:
  assumes "find_image_folder fs 4 = Inr (Some folders)"
    and "plan_splits g decode fs f folders = Inr pl"
  shows "\<exists>m fl. convert_to_tfrecord g decode ser md5 fs shards_dir shard_size_mb f = Inr (m, fl) \<and>
           trainSamples m = length (train_images pl) \<and>
           (\<exists>cks fl1.
              write_shards ser md5 fs Map.empty (train_images pl) (shards_dir @ ''/train'')
                (shard_size_mb * 1024 * 1024) = Inr (shardPaths m Train, cks, fl1) \<and>
              stored (shards_dir @ ''/train'') fl1 (length (shardPaths m Train))
                = written ser fs (train_images pl)) \<and>
           length (written ser fs (train_images pl))
             = length (filter (\<lambda>s. read_file fs (fst s) \<noteq> None) (train_images pl))"
proof -
  let ?thr = "shard_size_mb * 1024 * 1024"
  obtain n1 c1 fl1 where w1:
    "write_shards ser md5 fs Map.empty (train_images pl) (shards_dir @ ''/train'') ?thr
       = Inr (n1, c1, fl1)"
    and r1: "stored (shards_dir @ ''/train'') fl1 (length n1) = written ser fs (train_images pl)"
    using write_shards_records by blast
  obtain n2 c2 fl2 where w2:
    "(if val_images pl \<noteq> [] then
        write_shards ser md5 fs fl1 (val_images pl) (shards_dir @ ''/val'') ?thr
      else Inr ([], Map.empty, fl1)) = Inr (n2, c2, fl2)"
    using write_shards_total [of ser md5 fs fl1 "val_images pl" "shards_dir @ ''/val''" ?thr]
    by (cases "val_images pl \<noteq> []") auto
  obtain n3 c3 fl3 where w3:
    "(if test_images pl \<noteq> [] then
        write_shards ser md5 fs fl2 (test_images pl) (shards_dir @ ''/test'') ?thr
      else Inr ([], Map.empty, fl2)) = Inr (n3, c3, fl3)"
    using write_shards_total [of ser md5 fs fl2 "test_images pl" "shards_dir @ ''/test''" ?thr]
    by (cases "test_images pl \<noteq> []") auto
  define m where "m = \<lparr>numClasses = length (class_names pl),
                          classNames = class_names pl,
                          trainSamples = length (train_images pl),
                          valSamples = length (val_images pl),
                          testSamples = length (test_images pl),
                          originalWidth = fst (orig_size pl),
                          originalHeight = snd (orig_size pl),
                          shardPaths = (\<lambda>sp. case sp of Train \<Rightarrow> n1 | Val \<Rightarrow> n2 | Test \<Rightarrow> n3),
                          all_checksums = c1 ++ c2 ++ c3,
                          shardSizeMB = shard_size_mb\<rparr>"
  have ws: "write_splits ser md5 fs shards_dir shard_size_mb pl = Inr (m, fl3)"
    unfolding write_splits_def Let_def by (simp only: w1 w2 w3 m_def sum.case prod.case)
  have conv: "convert_to_tfrecord g decode ser md5 fs shards_dir shard_size_mb f = Inr (m, fl3)"
    using assms ws by (simp add: convert_to_tfrecord_def)
  have "trainSamples m = length (train_images pl)" and "shardPaths m Train = n1"
    by (simp_all add: m_def)
  with conv w1 r1 length_written [of ser fs "train_images pl"] show ?thesis by auto
qed

text \<open>An archive of two class folders and three images, of which \<open>cat/a.png\<close> cannot be
  read. The draws are those of the generator seeded with 42 for three elements.\<close>

lemma unreadable_find:
  "find_image_folder
     (Dir [(''cat'', Dir [(''a.png'', File None), (''b.png'', File (Some ''xx''))]),
           (''dog'', Dir [(''c.png'', File (Some ''y''))])]) 4
   = Inr (Some \<lparr>train = [], test = None, base = []\<rparr>)"
  by (simp add: find_image_folder_def search.simps get_subdirs_def exists_def listdir_def
      isdir_def dict_of_def lower_def lower_char_def has_images_def is_image_name_def extensions_def
      endswith_def)

lemma unreadable_plan:
  "plan_splits (\<lambda>i. if i = 2 then 2 else 0) (\<lambda>b. None)
     (Dir [(''cat'', Dir [(''a.png'', File None), (''b.png'', File (Some ''xx''))]),
           (''dog'', Dir [(''c.png'', File (Some ''y''))])])
     0 \<lparr>train = [], test = None, base = []\<rparr>
   = Inr \<lparr>class_names = [''cat'', ''dog''],
          train_images = [([''cat'', ''b.png''], 0), ([''cat'', ''a.png''], 0),
                          ([''dog'', ''c.png''], 1)],
          val_images = [],
          test_images = [],
          orig_size = (0, 0)\<rparr>"
  by (simp add: plan_splits_def class_names_of_def class_to_idx_of_def dict_of_def listdir_def
      isdir_def exists_def collect_images_def is_image_name_def extensions_def endswith_def
      lower_def lower_char_def get_image_dimensions_def read_file_def split_train_val_def
      shuffle_def Let_def numeral_2_eq_2)

theorem convert_counts_planned_samples_witness:
  "\<exists>m fl. convert_to_tfrecord (\<lambda>i. if i = 2 then 2 else 0) (\<lambda>b. None) (\<lambda>b l n. b) length
       (Dir [(''cat'', Dir [(''a.png'', File None), (''b.png'', File (Some ''xx''))]),
             (''dog'', Dir [(''c.png'', File (Some ''y''))])])
       ''out'' 1 0 = Inr (m, fl) \<and>
     trainSamples m = 3 \<and>
     length (written (\<lambda>b l n. b)
       (Dir [(''cat'', Dir [(''a.png'', File None), (''b.png'', File (Some ''xx''))]),
             (''dog'', Dir [(''c.png'', File (Some ''y''))])])
       [([''cat'', ''b.png''], 0), ([''cat'', ''a.png''], 0), ([''dog'', ''c.png''], 1)]) = 2"
  using convert_counts_planned_samples [OF unreadable_find unreadable_plan,
      of "\<lambda>b l n. b" length "''out''" 1]
  by (auto simp: read_file_def)

theorem train_samples_not_reduced_counterexample:
  "collect_train
     (Dir [(''cat'', Dir [(''a.png'', File None), (''b.png'', File (Some ''xx''))]),
           (''dog'', Dir [(''c.png'', File (Some ''y''))])])
     [] (class_to_idx_of [''cat'', ''dog'']) [''cat'', ''dog''] [] None
   = Inr ([([''cat'', ''a.png''], 0), ([''cat'', ''b.png''], 0), ([''dog'', ''c.png''], 1)],
          Some [''cat'', ''a.png'']) \<and>
   read_file
     (Dir [(''cat'', Dir [(''a.png'', File None), (''b.png'', File (Some ''xx''))]),
           (''dog'', Dir [(''c.png'', File (Some ''y''))])]) [''cat'', ''a.png''] = None \<and>
   (case convert_to_tfrecord (\<lambda>i. if i = 2 then 2 else 0) (\<lambda>b. None) (\<lambda>b l n. b) length
       (Dir [(''cat'', Dir [(''a.png'', File None), (''b.png'', File (Some ''xx''))]),
             (''dog'', Dir [(''c.png'', File (Some ''y''))])])
       ''out'' 1 0 of
      Inl e \<Rightarrow> None
    | Inr r \<Rightarrow> Some (trainSamples (fst r), shardPaths (fst r) Train,
                      snd r ''out/train-00000.tfrecord'')) =
     Some (3, [''train-00000.tfrecord''], Some [''xx'', ''y''])"
proof -
  have names: "shard_path ''out/train'' 0 = ''out/train-00000.tfrecord''"
    "basename ''out/train-00000.tfrecord'' = ''train-00000.tfrecord''"
    by code_simp+
  have 1: "collect_train
     (Dir [(''cat'', Dir [(''a.png'', File None), (''b.png'', File (Some ''xx''))]),
           (''dog'', Dir [(''c.png'', File (Some ''y''))])])
     [] (class_to_idx_of [''cat'', ''dog'']) [''cat'', ''dog''] [] None
   = Inr ([([''cat'', ''a.png''], 0), ([''cat'', ''b.png''], 0), ([''dog'', ''c.png''], 1)],
          Some [''cat'', ''a.png''])"
    by (simp add: class_to_idx_of_def dict_of_def collect_images_def listdir_def
        is_image_name_def extensions_def endswith_def lower_def lower_char_def)
  have 2: "read_file
     (Dir [(''cat'', Dir [(''a.png'', File None), (''b.png'', File (Some ''xx''))]),
           (''dog'', Dir [(''c.png'', File (Some ''y''))])]) [''cat'', ''a.png''] = None"
    by (simp add: read_file_def)
  have 3: "(case convert_to_tfrecord (\<lambda>i. if i = 2 then 2 else 0) (\<lambda>b. None) (\<lambda>b l n. b) length
       (Dir [(''cat'', Dir [(''a.png'', File None), (''b.png'', File (Some ''xx''))]),
             (''dog'', Dir [(''c.png'', File (Some ''y''))])])
       ''out'' 1 0 of
      Inl e \<Rightarrow> None
    | Inr r \<Rightarrow> Some (trainSamples (fst r), shardPaths (fst r) Train,
                      snd r ''out/train-00000.tfrecord'')) =
     Some (3, [''train-00000.tfrecord''], Some [''xx'', ''y''])"
    by (simp add: convert_to_tfrecord_def unreadable_find unreadable_plan write_splits_def
        write_shards_def init_wstate_def roll_over_def close_shard_def write_example_def
        create_example_def read_file_def names Let_def)
  from 1 2 3 show ?thesis by (intro conjI)
qed

section \<open>The test folder and the split\<close>

lemma check_train_test_not_train:
  assumes "check_train fs p (dict_of (map (\<lambda>d. (lower d, d)) subdirs)) names = Inr (Some r)"
    and "set names \<subseteq> {''train'', ''training''}"
  shows "test r \<noteq> Some (train r)"
  using assms
proof (induction names)
  case Nil
  then show ?case by simp
next
  case (Cons name names)
  let ?sl = "dict_of (map (\<lambda>d. (lower d, d)) subdirs)"
  from Cons.prems(2) have nm: "name \<in> {''train'', ''training''}"
    and rest: "set names \<subseteq> {''train'', ''training''}" by auto
  show ?case
  proof (cases "check_train fs p ?sl names = Inr (Some r)")
    case True
    then show ?thesis using Cons.IH rest by blast
  next
    case False
    with Cons.prems(1) obtain d where key: "?sl name = Some d"
      and r: "r = \<lparr>train = p @ [d], test = find_test ?sl p [''test'', ''val'', ''validation''],
                   base = p\<rparr>"
      by (auto simp: Let_def split: option.splits sum.splits list.splits if_splits)
    have ld: "lower d = name" using subdir_lower_SomeD [OF key] by simp
    show ?thesis
    proof
      assume "test r = Some (train r)"
      then have "find_test ?sl p [''test'', ''val'', ''validation''] = Some (p @ [d])"
        by (simp add: r)
      from find_test_Some [OF this] obtain t e where
        t: "t \<in> set [''test'', ''val'', ''validation'']" and e: "?sl t = Some e"
        and eq: "p @ [d] = p @ [e]" by blast
      from eq have "e = d" by simp
      with subdir_lower_SomeD [OF e] ld have "t = name" by simp
      with t nm show False by auto
    qed
  qed
qed

lemma search_test_not_train:
  "search max_depth fs p depth = Inr (Some r) \<Longrightarrow> test r \<noteq> Some (train r)"
  "search_each max_depth fs p depth1 subdirs = Inr (Some r) \<Longrightarrow> test r \<noteq> Some (train r)"
proof (induction max_depth fs p depth and max_depth fs p depth1 subdirs
       arbitrary: r and r rule: search_search_each.induct)
  case (1 max_depth fs p depth)
  from "1.prems" have d: "\<not> max_depth < depth"
    by (subst (asm) search.simps) (auto split: if_splits)
  from "1.prems" d obtain subdirs where sub: "get_subdirs fs p = Inr subdirs"
    by (subst (asm) search.simps) (auto split: sum.splits)
  let ?sl = "dict_of (map (\<lambda>d. (lower d, d)) subdirs)"
  from "1.prems" d sub consider
      (train) "check_train fs p ?sl [''train'', ''training''] = Inr (Some r)"
    | (flat) "r = \<lparr>train = p, test = None, base = p\<rparr>"
    | (deep) "check_train fs p ?sl [''train'', ''training''] = Inr None"
        "\<not> (length subdirs > 1 \<and> has_images fs (p @ [hd subdirs]))"
        "search_each max_depth fs p (depth + 1) subdirs = Inr (Some r)"
    by (subst (asm) search.simps)
       (auto simp: Let_def split: sum.splits option.splits if_splits)
  then show ?case
  proof cases
    case train
    then show ?thesis by (rule check_train_test_not_train) simp
  next
    case flat
    then show ?thesis by simp
  next
    case deep
    show ?thesis
      by (rule "1.IH" [OF d sub refl deep(1) refl deep(2) deep(3)])
  qed
next
  case (2 max_depth fs p depth1)
  then show ?case by simp
next
  case (3 max_depth fs p depth1 subdir subdirs)
  show ?case
  proof (cases "search max_depth fs (p @ [subdir]) depth1")
    case (Inl e)
    then show ?thesis using "3.prems" by simp
  next
    case (Inr res)
    show ?thesis
    proof (cases res)
      case None
      then have "search_each max_depth fs p depth1 subdirs = Inr (Some r)"
        using "3.prems" Inr by simp
      then show ?thesis using "3.IH"(2) Inr None by blast
    next
      case (Some found)
      then have "found = r" using "3.prems" Inr by simp
      then show ?thesis using "3.IH"(1) Inr Some by blast
    qed
  qed
qed

lemma sample_paths_disjoint:
  assumes "td \<noteq> tr"
    and "\<And>s. s \<in> set tests \<Longrightarrow> \<exists>c file. fst s = td @ [c, file]"
    and "\<And>s. s \<in> set trains \<Longrightarrow> \<exists>c file. fst s = tr @ [c, file]"
  shows "fst ` set tests \<inter> fst ` set trains = {}"
proof (rule ccontr)
  assume "fst ` set tests \<inter> fst ` set trains \<noteq> {}"
  then obtain a b where a: "a \<in> set tests" and b: "b \<in> set trains" and eq: "fst a = fst b"
    by auto
  from assms(2) [OF a] obtain c x where 1: "fst a = td @ [c, x]" by blast
  from assms(3) [OF b] obtain c' x' where 2: "fst b = tr @ [c', x']" by blast
  from eq 1 2 have "td @ [c, x] = tr @ [c', x']" by simp
  then have "td = tr" by simp
  with assms(1) show False by simp
qed

text \<open>
  C5, as the code has it. The train list is shuffled in every run, also when a test
  folder was resolved. With a test folder the validation fraction is ignored: the
  validation list is empty and the train list is the whole shuffled list of collected
  samples. The test samples are collected from the class folders of the test folder,
  which is not the train folder, so no test sample is a train sample.
\<close>

theorem test_folder_suppresses_split:
  assumes found: "find_image_folder fs max_depth = Inr (Some folders)"
    and td: "test folders = Some td"
    and plan: "plan_splits g decode fs f folders = Inr pl"
  shows "val_images pl = [] \<and>
         (\<exists>collected si.
            collect_train fs (train folders) (class_to_idx_of (class_names pl)) (class_names pl)
              [] None = Inr (collected, si) \<and>
            train_images pl = shuffle g collected) \<and>
         collect_test fs td (class_to_idx_of (class_names pl)) (class_names pl) []
           = Inr (test_images pl) \<and>
         (\<forall>s \<in> set (test_images pl). \<exists>c file. fst s = td @ [c, file]) \<and>
         fst ` set (test_images pl) \<inter> fst ` set (train_images pl) = {}"
proof -
  let ?names = "class_names pl"
  let ?c2i = "class_to_idx_of ?names"
  from plan_splitsD [OF plan] td obtain collected si where
    coll: "collect_train fs (train folders) ?c2i ?names [] None = Inr (collected, si)"
    and tr: "train_images pl = fst (split_train_val g (Some td) f collected)"
    and va: "val_images pl = snd (split_train_val g (Some td) f collected)"
    and tests: "collect_test fs td ?c2i ?names [] = Inr (test_images pl)"
    by auto
  have tr': "train_images pl = shuffle g collected" and va': "val_images pl = []"
    using tr va by (simp_all add: split_train_val_def Let_def)
  have ne: "td \<noteq> train folders"
    using search_test_not_train(1) [of max_depth fs "[]" 0 folders] found td
    by (auto simp: find_image_folder_def)
  have te: "\<exists>c file. fst s = td @ [c, file]" if "s \<in> set (test_images pl)" for s
    using collect_test_set [OF tests that] by auto
  have trn: "\<exists>c file. fst s = train folders @ [c, file]" if "s \<in> set (train_images pl)" for s
  proof -
    from that have "s \<in> set collected"
      using mset_eq_setD [OF mset_shuffle [of g collected]] tr' by simp
    from collect_train_set [OF coll this] show ?thesis by auto
  qed
  have "fst ` set (test_images pl) \<inter> fst ` set (train_images pl) = {}"
    by (rule sample_paths_disjoint [OF ne te trn])
  with va' coll tr' tests te show ?thesis by blast
qed

lemma find_example:
  "find_image_folder
     (Dir [(''train'', Dir [(''dog'', Dir [(''b.png'', File (Some ''B''))]),
                            (''cat'', Dir [(''a.png'', File (Some ''A''))])]),
           (''test'', Dir [(''bird'', Dir [(''z.png'', File (Some ''Z''))]),
                           (''cat'', Dir [(''t.png'', File (Some ''T''))])])]) 4
   = Inr (Some \<lparr>train = [''train''], test = Some [''test''], base = []\<rparr>)"
  by (simp add: find_image_folder_def search.simps get_subdirs_def exists_def listdir_def
      isdir_def dict_of_def lower_def lower_char_def has_images_def is_image_name_def
      extensions_def endswith_def)

theorem test_folder_suppresses_split_witness:
  "collect_test
     (Dir [(''train'', Dir [(''dog'', Dir [(''b.png'', File (Some ''B''))]),
                            (''cat'', Dir [(''a.png'', File (Some ''A''))])]),
           (''test'', Dir [(''bird'', Dir [(''z.png'', File (Some ''Z''))]),
                           (''cat'', Dir [(''t.png'', File (Some ''T''))])])])
     [''test''] (class_to_idx_of [''cat'', ''dog'']) [''cat'', ''dog''] []
     = Inr [([''test'', ''cat'', ''t.png''], 0)] \<and>
   fst ` set [([''test'', ''cat'', ''t.png''], 0 :: nat)] \<inter>
   fst ` set [([''train'', ''dog'', ''b.png''], 1 :: nat), ([''train'', ''cat'', ''a.png''], 0)] = {}"
proof -
  have td: "test \<lparr>train = [''train''], test = Some [''test''], base = []\<rparr> = Some [''test'']"
    by simp
  from test_folder_suppresses_split [OF find_example td plan_example]
  show ?thesis by simp
qed

text \<open>With a test folder resolved, the collected train list \<open>cat/a.png, dog/b.png\<close>
  becomes \<open>dog/b.png, cat/a.png\<close>: it is shuffled. The draw is the one the generator
  seeded with 42 makes for two elements.\<close>

theorem shuffle_with_test_folder_counterexample:
  "find_image_folder
     (Dir [(''train'', Dir [(''dog'', Dir [(''b.png'', File (Some ''B''))]),
                            (''cat'', Dir [(''a.png'', File (Some ''A''))])]),
           (''test'', Dir [(''bird'', Dir [(''z.png'', File (Some ''Z''))]),
                           (''cat'', Dir [(''t.png'', File (Some ''T''))])])]) 4
   = Inr (Some \<lparr>train = [''train''], test = Some [''test''], base = []\<rparr>) \<and>
   collect_train
     (Dir [(''train'', Dir [(''dog'', Dir [(''b.png'', File (Some ''B''))]),
                            (''cat'', Dir [(''a.png'', File (Some ''A''))])]),
           (''test'', Dir [(''bird'', Dir [(''z.png'', File (Some ''Z''))]),
                           (''cat'', Dir [(''t.png'', File (Some ''T''))])])])
     [''train''] (class_to_idx_of [''cat'', ''dog'']) [''cat'', ''dog''] [] None
   = Inr ([([''train'', ''cat'', ''a.png''], 0), ([''train'', ''dog'', ''b.png''], 1)],
          Some [''train'', ''cat'', ''a.png'']) \<and>
   plan_splits (\<lambda>i. 0) (\<lambda>b. None)
     (Dir [(''train'', Dir [(''dog'', Dir [(''b.png'', File (Some ''B''))]),
                            (''cat'', Dir [(''a.png'', File (Some ''A''))])]),
           (''test'', Dir [(''bird'', Dir [(''z.png'', File (Some ''Z''))]),
                           (''cat'', Dir [(''t.png'', File (Some ''T''))])])])
     (1 / 5) \<lparr>train = [''train''], test = Some [''test''], base = []\<rparr>
   = Inr \<lparr>class_names = [''cat'', ''dog''],
          train_images = [([''train'', ''dog'', ''b.png''], 1), ([''train'', ''cat'', ''a.png''], 0)],
          val_images = [],
          test_images = [([''test'', ''cat'', ''t.png''], 0)],
          orig_size = (0, 0)\<rparr>"
proof -
  have "collect_train
     (Dir [(''train'', Dir [(''dog'', Dir [(''b.png'', File (Some ''B''))]),
                            (''cat'', Dir [(''a.png'', File (Some ''A''))])]),
           (''test'', Dir [(''bird'', Dir [(''z.png'', File (Some ''Z''))]),
                           (''cat'', Dir [(''t.png'', File (Some ''T''))])])])
     [''train''] (class_to_idx_of [''cat'', ''dog'']) [''cat'', ''dog''] [] None
   = Inr ([([''train'', ''cat'', ''a.png''], 0), ([''train'', ''dog'', ''b.png''], 1)],
          Some [''train'', ''cat'', ''a.png''])"
    by (simp add: class_to_idx_of_def dict_of_def collect_images_def listdir_def
        is_image_name_def extensions_def endswith_def lower_def lower_char_def)
  with find_example plan_example show ?thesis by (intro conjI)
qed

section \<open>The shards of the three splits\<close>

lemma frame_roll_over:
  assumes inv: "winv md5 pre thr s" and r: "roll_over md5 pre thr s = Inr s1"
    and fr: "\<And>q. (\<And>i. i < shard_idx s \<Longrightarrow> q \<noteq> shard_path pre i) \<Longrightarrow> files s q = fl q"
    and q: "\<And>i. i < shard_idx s1 \<Longrightarrow> q \<noteq> shard_path pre i"
  shows "files s1 q = fl q"
proof (cases "writer s")
  case None
  from None r have s1: "s1 = s\<lparr>shard_paths := shard_paths s @ [basename (shard_path pre (shard_idx s))],
              writer := Some (shard_path pre (shard_idx s), []),
              files := (files s)(shard_path pre (shard_idx s) \<mapsto> []),
              shard_idx := shard_idx s + 1,
              current_size := 0\<rparr>"
    by (auto simp: roll_over_def close_shard_def Let_def)
  have "q \<noteq> shard_path pre (shard_idx s)" using q [of "shard_idx s"] by (simp add: s1)
  moreover have "files s q = fl q" by (rule fr) (use q in \<open>simp add: s1\<close>)
  ultimately show ?thesis by (simp add: s1)
next
  case (Some pr)
  obtain p records where pr: "pr = (p, records)" by (cases pr)
  let ?n = "shard_idx s"
  from inv Some pr have n: "0 < ?n" and p: "p = shard_path pre (?n - 1)"
    by (simp_all add: winv_def)
  show ?thesis
  proof (cases "thr \<le> of_nat (current_size s)")
    case False
    then have "s1 = s" using r Some by (auto simp: roll_over_def)
    then show ?thesis using fr q by simp
  next
    case True
    then have s1: "s1 = s\<lparr>checksums := (checksums s)(basename p \<mapsto> md5 records),
              shard_paths := shard_paths s @ [basename (shard_path pre ?n)],
              writer := Some (shard_path pre ?n, []),
              files := (files s)(p \<mapsto> records, shard_path pre ?n \<mapsto> []),
              shard_idx := ?n + 1,
              current_size := 0\<rparr>"
      using r Some pr by (auto simp: roll_over_def close_shard_def Let_def)
    have "q \<noteq> shard_path pre ?n" using q [of ?n] by (simp add: s1)
    moreover have "q \<noteq> p" using q [of "?n - 1"] n p by (simp add: s1)
    moreover have "files s q = fl q" by (rule fr) (use q in \<open>simp add: s1\<close>)
    ultimately show ?thesis by (simp add: s1)
  qed
qed

lemma write_example_same_files:
  "files (write_example ser fs img s) = files s"
  "shard_idx (write_example ser fs img s) = shard_idx s"
  by (auto simp: write_example_def split: option.splits)

lemma frame_write_loop:
  "winv md5 pre thr s \<Longrightarrow>
   (\<And>q. (\<And>i. i < shard_idx s \<Longrightarrow> q \<noteq> shard_path pre i) \<Longrightarrow> files s q = fl q) \<Longrightarrow>
   write_loop ser md5 fs pre thr images s = Inr s1 \<Longrightarrow>
   (\<And>i. i < shard_idx s1 \<Longrightarrow> q \<noteq> shard_path pre i) \<Longrightarrow>
   files s1 q = fl q"
proof (induction images arbitrary: s)
  case Nil
  then show ?case by simp
next
  case (Cons img images)
  obtain s2 where r: "roll_over md5 pre thr s = Inr s2"
    using roll_over_total by blast
  let ?s3 = "write_example ser fs img s2"
  have inv2: "winv md5 pre thr s2" by (rule winv_roll_over [OF Cons.prems(1) r])
  have inv3: "winv md5 pre thr ?s3" by (rule winv_write_example [OF inv2])
  have fr3: "files ?s3 q' = fl q'" if "\<And>i. i < shard_idx ?s3 \<Longrightarrow> q' \<noteq> shard_path pre i" for q'
  proof -
    have "files s2 q' = fl q'"
      by (rule frame_roll_over [OF Cons.prems(1) r Cons.prems(2)])
         (use that in \<open>simp_all add: write_example_same_files\<close>)
    then show ?thesis by (simp add: write_example_same_files)
  qed
  have loop: "write_loop ser md5 fs pre thr images ?s3 = Inr s1"
    using Cons.prems(3) r by simp
  show ?case by (rule Cons.IH [OF inv3 fr3 loop Cons.prems(4)])
qed

lemma write_shards_ok:
  "\<exists>names cks fl'. write_shards ser md5 fs fl images pre thr = Inr (names, cks, fl') \<and>
     shards_ok md5 pre fl names cks fl'"
proof -
  obtain s where s: "write_loop ser md5 fs pre thr images (init_wstate fl) = Inr s"
    using write_loop_total by blast
  have inv: "winv md5 pre thr s"
    using winv_write_loop [OF winv_init s] .
  have fr: "files s q = fl q" if "\<And>i. i < shard_idx s \<Longrightarrow> q \<noteq> shard_path pre i" for q
    by (rule frame_write_loop [OF winv_init _ s that]) (simp add: init_wstate_def)
  let ?n = "shard_idx s"
  from inv have names: "shard_paths s = map (\<lambda>i. basename (shard_path pre i)) [0..<?n]"
    by (simp add: winv_def)
  then have len: "length (shard_paths s) = ?n" by simp
  from inv have closed: "\<And>i. Suc i < ?n \<Longrightarrow>
        \<exists>c. files s (shard_path pre i) = Some c \<and>
            checksums s (basename (shard_path pre i)) = Some (md5 c)"
    by (auto simp: winv_def)
  from inv have d: "dom (checksums s) = (\<lambda>i. basename (shard_path pre i)) ` {i. Suc i < ?n}"
    by (simp add: winv_def)
  show ?thesis
  proof (cases "writer s")
    case None
    then have n0: "?n = 0" using inv by (simp add: winv_def)
    have run: "write_shards ser md5 fs fl images pre thr = Inr (shard_paths s, checksums s, files s)"
      using s None by (simp add: write_shards_def close_shard_def)
    have "shards_ok md5 pre fl (shard_paths s) (checksums s) (files s)"
      unfolding shards_ok_def using names n0 d fr by simp
    with run show ?thesis by blast
  next
    case (Some pr)
    obtain p records where pr: "pr = (p, records)" by (cases pr)
    from inv Some pr have n: "0 < ?n" and p: "p = shard_path pre (?n - 1)"
      by (simp_all add: winv_def)
    define cks where "cks = (checksums s)(basename p \<mapsto> md5 records)"
    define fl' where "fl' = (files s)(p \<mapsto> records)"
    have run: "write_shards ser md5 fs fl images pre thr = Inr (shard_paths s, cks, fl')"
      using s Some pr by (simp add: write_shards_def close_shard_def cks_def fl'_def)
    have 1: "shard_paths s = map (\<lambda>i. basename (shard_path pre i)) [0..<length (shard_paths s)]"
      using names len by simp
    have "{0..<?n} = insert (?n - 1) {i. Suc i < ?n}" using n by auto
    then have 2: "dom cks = set (shard_paths s)"
      using d p names by (simp add: cks_def)
    have 3: "\<exists>c. fl' (shard_path pre i) = Some c \<and> cks (shard_paths s ! i) = Some (md5 c)"
      if i: "i < length (shard_paths s)" for i
    proof -
      from i have i': "i < ?n" by (simp add: len)
      then have nth: "shard_paths s ! i = basename (shard_path pre i)"
        by (simp add: names)
      show ?thesis
      proof (cases "Suc i = ?n")
        case True
        then have "shard_path pre i = p" using p by (metis diff_Suc_1)
        then show ?thesis using nth by (simp add: cks_def fl'_def)
      next
        case False
        with i' have lt: "Suc i < ?n" by simp
        have ne2: "shard_path pre i \<noteq> p"
          using lt p shard_path_inj [of pre i "?n - 1"] by auto
        have ne3: "basename (shard_path pre i) \<noteq> basename p"
          using lt p basename_shard_path_inj [of pre i "?n - 1"] by auto
        show ?thesis using closed [OF lt] ne2 ne3 nth by (simp add: cks_def fl'_def)
      qed
    qed
    have 4: "fl' q = fl q" if q: "\<forall>i<length (shard_paths s). q \<noteq> shard_path pre i" for q
    proof -
      have "q \<noteq> p" using q p n len by auto
      moreover have "files s q = fl q" by (rule fr) (use q len in auto)
      ultimately show ?thesis by (simp add: fl'_def)
    qed
    have "shards_ok md5 pre fl (shard_paths s) cks fl'"
      unfolding shards_ok_def using 1 2 3 4 by blast
    with run show ?thesis by blast
  qed
qed

lemma shards_ok_none: "shards_ok md5 pre fl [] Map.empty fl"
  by (simp add: shards_ok_def)

lemma basename_after_slash:
  assumes "CHR ''/'' \<notin> set s"
  shows "basename (sd @ ''/'' @ s) = s"
proof -
  have "takeWhile (\<lambda>c. c \<noteq> CHR ''/'') (rev s @ CHR ''/'' # rev sd)
        = takeWhile (\<lambda>c. c \<noteq> CHR ''/'') (rev s)"
    by (rule takeWhile_tail) simp
  also have "\<dots> = rev s"
    by (rule takeWhile_eq_all_conv [THEN iffD2]) (use assms in auto)
  finally show ?thesis by (simp add: basename_def)
qed

lemma split_shard_name:
  assumes "CHR ''/'' \<notin> set stem"
  shows "basename (shard_path (sd @ ''/'' @ stem) i) = stem @ ''-'' @ fmt05d i @ ''.tfrecord''"
    and "shard_path (sd @ ''/'' @ stem) i = sd @ ''/'' @ basename (shard_path (sd @ ''/'' @ stem) i)"
proof -
  show 1: "basename (shard_path (sd @ ''/'' @ stem) i) = stem @ ''-'' @ fmt05d i @ ''.tfrecord''"
    using basename_after_slash [OF assms, of sd] by (simp add: basename_shard_path)
  show "shard_path (sd @ ''/'' @ stem) i = sd @ ''/'' @ basename (shard_path (sd @ ''/'' @ stem) i)"
    unfolding 1 by (simp add: shard_path_def)
qed

lemma split_names:
  "basename (shard_path (sd @ ''/train'') i) = ''train-'' @ fmt05d i @ ''.tfrecord''"
  "basename (shard_path (sd @ ''/val'') i) = ''val-'' @ fmt05d i @ ''.tfrecord''"
  "basename (shard_path (sd @ ''/test'') i) = ''test-'' @ fmt05d i @ ''.tfrecord''"
  "shard_path (sd @ ''/train'') i = sd @ ''/'' @ basename (shard_path (sd @ ''/train'') i)"
  "shard_path (sd @ ''/val'') i = sd @ ''/'' @ basename (shard_path (sd @ ''/val'') i)"
  "shard_path (sd @ ''/test'') i = sd @ ''/'' @ basename (shard_path (sd @ ''/test'') i)"
  using split_shard_name [of "''train''" sd i] split_shard_name [of "''val''" sd i]
    split_shard_name [of "''test''" sd i]
  by simp_all

lemma split_paths_differ:
  "shard_path (sd @ ''/train'') i \<noteq> shard_path (sd @ ''/val'') j"
  "shard_path (sd @ ''/train'') i \<noteq> shard_path (sd @ ''/test'') j"
  "shard_path (sd @ ''/val'') i \<noteq> shard_path (sd @ ''/test'') j"
  "basename (shard_path (sd @ ''/train'') i) \<noteq> basename (shard_path (sd @ ''/val'') j)"
  "basename (shard_path (sd @ ''/train'') i) \<noteq> basename (shard_path (sd @ ''/test'') j)"
  "basename (shard_path (sd @ ''/val'') i) \<noteq> basename (shard_path (sd @ ''/test'') j)"
  by (simp_all add: split_names(1-3)) (simp_all add: shard_path_def)

lemma shards_okD:
  assumes "shards_ok md5 pre fl names cks fl'" and "name \<in> set names"
  shows "\<exists>i. name = basename (shard_path pre i) \<and>
           (\<exists>c. fl' (shard_path pre i) = Some c \<and> cks name = Some (md5 c))"
proof -
  from assms(2) obtain i where i: "i < length names" and n: "names ! i = name"
    by (auto simp: in_set_conv_nth)
  from assms(1) have "names = map (\<lambda>i. basename (shard_path pre i)) [0..<length names]"
    by (simp add: shards_ok_def)
  then have "names ! i = map (\<lambda>i. basename (shard_path pre i)) [0..<length names] ! i"
    by simp
  then have "name = basename (shard_path pre i)" using i n by simp
  moreover from assms(1) i have "\<exists>c. fl' (shard_path pre i) = Some c \<and> cks (names ! i) = Some (md5 c)"
    by (simp add: shards_ok_def)
  ultimately show ?thesis using n by auto
qed

lemma shards_ok_other_name:
  assumes "shards_ok md5 pre fl names cks fl'" and "\<And>j. name \<noteq> basename (shard_path pre j)"
  shows "cks name = None"
proof -
  have "name \<notin> set names"
    using shards_okD [OF assms(1)] assms(2) by blast
  then show ?thesis using assms(1) by (auto simp: shards_ok_def)
qed

lemma shards_ok_other_file:
  assumes "shards_ok md5 pre fl names cks fl'" and "\<And>j. q \<noteq> shard_path pre j"
  shows "fl' q = fl q"
  using assms by (simp add: shards_ok_def)

lemma manifest_shards:
  assumes a1: "shards_ok md5 (sd @ ''/train'') fl0 n1 c1 fl1"
    and a2: "shards_ok md5 (sd @ ''/val'') fl1 n2 c2 fl2"
    and a3: "shards_ok md5 (sd @ ''/test'') fl2 n3 c3 fl3"
    and nm: "name \<in> set n1 \<or> name \<in> set n2 \<or> name \<in> set n3"
  shows "\<exists>c. fl3 (sd @ ''/'' @ name) = Some c \<and> (c1 ++ c2 ++ c3) name = Some (md5 c)"
  using nm
proof (elim disjE)
  assume "name \<in> set n1"
  from shards_okD [OF a1 this] obtain i c where
    name: "name = basename (shard_path (sd @ ''/train'') i)"
    and f: "fl1 (shard_path (sd @ ''/train'') i) = Some c" and k: "c1 name = Some (md5 c)"
    by blast
  have path: "shard_path (sd @ ''/train'') i = sd @ ''/'' @ name"
    unfolding name by (rule split_names(4))
  have "fl2 (shard_path (sd @ ''/train'') i) = fl1 (shard_path (sd @ ''/train'') i)"
    by (rule shards_ok_other_file [OF a2]) (rule split_paths_differ(1))
  moreover have "fl3 (shard_path (sd @ ''/train'') i) = fl2 (shard_path (sd @ ''/train'') i)"
    by (rule shards_ok_other_file [OF a3]) (rule split_paths_differ(2))
  moreover have "c2 name = None"
    unfolding name by (rule shards_ok_other_name [OF a2]) (rule split_paths_differ(4))
  moreover have "c3 name = None"
    unfolding name by (rule shards_ok_other_name [OF a3]) (rule split_paths_differ(5))
  ultimately show ?thesis using f k path by (simp add: map_add_def)
next
  assume "name \<in> set n2"
  from shards_okD [OF a2 this] obtain i c where
    name: "name = basename (shard_path (sd @ ''/val'') i)"
    and f: "fl2 (shard_path (sd @ ''/val'') i) = Some c" and k: "c2 name = Some (md5 c)"
    by blast
  have path: "shard_path (sd @ ''/val'') i = sd @ ''/'' @ name"
    unfolding name by (rule split_names(5))
  have "fl3 (shard_path (sd @ ''/val'') i) = fl2 (shard_path (sd @ ''/val'') i)"
    by (rule shards_ok_other_file [OF a3]) (rule split_paths_differ(3))
  moreover have "c3 name = None"
    unfolding name by (rule shards_ok_other_name [OF a3]) (rule split_paths_differ(6))
  ultimately show ?thesis using f k path by (simp add: map_add_def)
next
  assume "name \<in> set n3"
  from shards_okD [OF a3 this] obtain i c where
    name: "name = basename (shard_path (sd @ ''/test'') i)"
    and f: "fl3 (shard_path (sd @ ''/test'') i) = Some c" and k: "c3 name = Some (md5 c)"
    by blast
  have path: "shard_path (sd @ ''/test'') i = sd @ ''/'' @ name"
    unfolding name by (rule split_names(6))
  show ?thesis using f k path by (simp add: map_add_def)
qed

text \<open>
  C7. For every shard file that a completed conversion lists in the manifest, of any
  split, the file of that name is in the shard directory when the run ends, and the
  digest of its content is the checksum the manifest records under its name: each shard
  is digested after it is closed, and no later shard or split writes to it or takes its
  name.
\<close>

theorem manifest_checksums_valid:
  assumes "convert_to_tfrecord g decode ser md5 fs shards_dir shard_size_mb f = Inr (m, fl)"
  shows "\<forall>sp. \<forall>name \<in> set (shardPaths m sp).
           \<exists>c. fl (shards_dir @ ''/'' @ name) = Some c \<and> all_checksums m name = Some (md5 c)"
proof -
  let ?thr = "shard_size_mb * 1024 * 1024"
  from assms obtain pl where ws: "write_splits ser md5 fs shards_dir shard_size_mb pl = Inr (m, fl)"
    by (auto simp: convert_to_tfrecord_def split: sum.splits option.splits)
  obtain n1 c1 fl1 where w1:
    "write_shards ser md5 fs Map.empty (train_images pl) (shards_dir @ ''/train'') ?thr
       = Inr (n1, c1, fl1)"
    and o1: "shards_ok md5 (shards_dir @ ''/train'') Map.empty n1 c1 fl1"
    using write_shards_ok by blast
  obtain n2 c2 fl2 where w2:
    "(if val_images pl \<noteq> [] then
        write_shards ser md5 fs fl1 (val_images pl) (shards_dir @ ''/val'') ?thr
      else Inr ([], Map.empty, fl1)) = Inr (n2, c2, fl2)"
    and o2: "shards_ok md5 (shards_dir @ ''/val'') fl1 n2 c2 fl2"
    using write_shards_ok [of ser md5 fs fl1 "val_images pl" "shards_dir @ ''/val''" ?thr]
      shards_ok_none [of md5 "shards_dir @ ''/val''" fl1]
    by (cases "val_images pl \<noteq> []") auto
  obtain n3 c3 fl3 where w3:
    "(if test_images pl \<noteq> [] then
        write_shards ser md5 fs fl2 (test_images pl) (shards_dir @ ''/test'') ?thr
      else Inr ([], Map.empty, fl2)) = Inr (n3, c3, fl3)"
    and o3: "shards_ok md5 (shards_dir @ ''/test'') fl2 n3 c3 fl3"
    using write_shards_ok [of ser md5 fs fl2 "test_images pl" "shards_dir @ ''/test''" ?thr]
      shards_ok_none [of md5 "shards_dir @ ''/test''" fl2]
    by (cases "test_images pl \<noteq> []") auto
  have "write_splits ser md5 fs shards_dir shard_size_mb pl =
      Inr (\<lparr>numClasses = length (class_names pl),
            classNames = class_names pl,
            trainSamples = length (train_images pl),
            valSamples = length (val_images pl),
            testSamples = length (test_images pl),
            originalWidth = fst (orig_size pl),
            originalHeight = snd (orig_size pl),
            shardPaths = (\<lambda>sp. case sp of Train \<Rightarrow> n1 | Val \<Rightarrow> n2 | Test \<Rightarrow> n3),
            all_checksums = c1 ++ c2 ++ c3,
            shardSizeMB = shard_size_mb\<rparr>, fl3)"
    unfolding write_splits_def Let_def by (simp only: w1 w2 w3 sum.case prod.case)
  with ws have sp: "shardPaths m = (\<lambda>sp. case sp of Train \<Rightarrow> n1 | Val \<Rightarrow> n2 | Test \<Rightarrow> n3)"
    and ck: "all_checksums m = c1 ++ c2 ++ c3" and fl: "fl = fl3"
    by auto
  have "\<exists>c. fl (shards_dir @ ''/'' @ name) = Some c \<and> all_checksums m name = Some (md5 c)"
    if "name \<in> set (shardPaths m s)" for s name
  proof -
    from that have "name \<in> set n1 \<or> name \<in> set n2 \<or> name \<in> set n3"
      by (cases s) (simp_all add: sp)
    from manifest_shards [OF o1 o2 o3 this] show ?thesis by (simp add: ck fl)
  qed
  then show ?thesis by blast
qed

lemma unreadable_run:
  "\<exists>m fl. convert_to_tfrecord (\<lambda>i. if i = 2 then 2 else 0) (\<lambda>b. None) (\<lambda>b l n. b) length
       (Dir [(''cat'', Dir [(''a.png'', File None), (''b.png'', File (Some ''xx''))]),
             (''dog'', Dir [(''c.png'', File (Some ''y''))])])
       ''out'' 1 0 = Inr (m, fl) \<and>
     shardPaths m Train = [''train-00000.tfrecord'']"
proof -
  have names: "shard_path ''out/train'' 0 = ''out/train-00000.tfrecord''"
    "basename ''out/train-00000.tfrecord'' = ''train-00000.tfrecord''"
    by code_simp+
  show ?thesis
    by (simp add: convert_to_tfrecord_def unreadable_find unreadable_plan write_splits_def
        write_shards_def init_wstate_def roll_over_def close_shard_def write_example_def
        create_example_def read_file_def names Let_def)
qed

theorem manifest_checksums_valid_witness:
  "\<exists>m fl. convert_to_tfrecord (\<lambda>i. if i = 2 then 2 else 0) (\<lambda>b. None) (\<lambda>b l n. b) length
       (Dir [(''cat'', Dir [(''a.png'', File None), (''b.png'', File (Some ''xx''))]),
             (''dog'', Dir [(''c.png'', File (Some ''y''))])])
       ''out'' 1 0 = Inr (m, fl) \<and>
     ''train-00000.tfrecord'' \<in> set (shardPaths m Train) \<and>
     (\<exists>c. fl (''out'' @ ''/'' @ ''train-00000.tfrecord'') = Some c \<and>
          all_checksums m ''train-00000.tfrecord'' = Some (length c))"
proof -
  from unreadable_run obtain m fl where
    run: "convert_to_tfrecord (\<lambda>i. if i = 2 then 2 else 0) (\<lambda>b. None) (\<lambda>b l n. b) length
       (Dir [(''cat'', Dir [(''a.png'', File None), (''b.png'', File (Some ''xx''))]),
             (''dog'', Dir [(''c.png'', File (Some ''y''))])])
       ''out'' 1 0 = Inr (m, fl)"
    and sp: "shardPaths m Train = [''train-00000.tfrecord'']"
    by blast
  from sp have mem: "''train-00000.tfrecord'' \<in> set (shardPaths m Train)" by simp
  from manifest_checksums_valid [OF run] mem
  have "\<exists>c. fl (''out'' @ ''/'' @ ''train-00000.tfrecord'') = Some c \<and>
          all_checksums m ''train-00000.tfrecord'' = Some (length c)"
    by blast
  with run mem show ?thesis by blast
qed

end
